theory Spec2Isabelle
  imports Main "HOL-Library.Sublist" "HOL-Library.Product_Lexorder" "HOL-Library.Multiset"
begin

section \<open>Documents, substring tests and slices\<close>

text \<open>
  A document is the list of its lines, as \<^verbatim>\<open>readlines()\<close> returns them; a line is a
  string. A span is the pair \<open>(start, end)\<close> of a half-open line range.
\<close>

type_synonym line = string
type_synonym document = "line list"
type_synonym span = "nat \<times> nat"

text \<open>Python's \<^verbatim>\<open>sub in s\<close> on strings: \<open>sub\<close> occurs in \<open>s\<close> as a contiguous run.\<close>

fun has_sub :: "string \<Rightarrow> string \<Rightarrow> bool" where
  "has_sub sub [] = (sub = [])"
| "has_sub sub (c # cs) = (prefix sub (c # cs) \<or> has_sub sub cs)"

text \<open>
  Python's \<^verbatim>\<open>del xs[start:end]\<close> for non-negative bounds: both bounds are clamped to
  the length of the list, and nothing is deleted when \<open>end \<le> start\<close>.
\<close>

definition del_slice :: "nat \<Rightarrow> nat \<Rightarrow> 'a list \<Rightarrow> 'a list" where
  "del_slice s e xs = take s xs @ drop (max s e) xs"

text \<open>Python's \<^verbatim>\<open>xs[start:end]\<close> for non-negative bounds.\<close>

definition slice :: "nat \<Rightarrow> nat \<Rightarrow> 'a list \<Rightarrow> 'a list" where
  "slice s e xs = take (e - s) (drop s xs)"

section \<open>clean_ui.py: the brace-balance scan\<close>

text \<open>
  The inner loop \<^verbatim>\<open>for j in range(i, min(i + window, len(lines)))\<close>. The first
  argument holds the lines still inside the window, \<open>j\<close> is the index of its head,
  \<open>bc\<close> is \<^verbatim>\<open>brace_count\<close> (a Python int, it may go negative) and \<open>fo\<close> is
  \<^verbatim>\<open>found_open\<close>. The result is \<open>Some (j + 1)\<close> at the \<^verbatim>\<open>break\<close>, and \<open>None\<close>
  when the range is exhausted.
\<close>

fun scan_braces :: "line list \<Rightarrow> nat \<Rightarrow> int \<Rightarrow> bool \<Rightarrow> nat option" where
  "scan_braces [] j bc fo = None"
| "scan_braces (l # ls) j bc fo =
     (let fo1 = (fo \<or> CHR ''{'' \<in> set l);
          bc1 = (if CHR ''{'' \<in> set l then bc + int (count_list l CHR ''{'') else bc);
          bc2 = bc1 - int (count_list l CHR ''}'')
      in if fo1 \<and> bc2 = 0 then Some (j + 1) else scan_braces ls (j + 1) bc2 fo1)"

definition find_end :: "document \<Rightarrow> nat \<Rightarrow> nat \<Rightarrow> nat option" where
  "find_end lines i window = scan_braces (take window (drop i lines)) i 0 False"

text \<open>
  The outer loop \<^verbatim>\<open>for i, line in enumerate(lines): if sig in line: ...; break\<close>:
  the index of the first line that contains the signature.
\<close>

fun find_sig :: "string \<Rightarrow> line list \<Rightarrow> nat \<Rightarrow> nat option" where
  "find_sig sig [] i = None"
| "find_sig sig (l # ls) i = (if has_sub sig l then Some i else find_sig sig ls (i + 1))"

text \<open>
  One search block of the script: what it appends to \<^verbatim>\<open>remove_sections\<close>, nothing or
  the one span \<open>(start, j + 1)\<close>.
\<close>

definition locate :: "string \<Rightarrow> nat \<Rightarrow> document \<Rightarrow> span list" where
  "locate sig window lines =
     (case find_sig sig lines 0 of
        None \<Rightarrow> []
      | Some i \<Rightarrow> (case find_end lines i window of None \<Rightarrow> [] | Some e \<Rightarrow> [(i, e)]))"

text \<open>
  The four search blocks differ in the signature and the window only; they run in this
  order, each appending to the same list.
\<close>

definition targets :: "(string \<times> nat) list" where
  "targets =
     [(''bool UI::DetectEdgeHover('', 100),
      (''void UI::RenderCanvasPanel('', 2000),
      (''void UI::LoadEyedropperCursor('', 100),
      (''void UI::UpdateCursor('', 100)]"

definition sections_for :: "(string \<times> nat) list \<Rightarrow> document \<Rightarrow> span list" where
  "sections_for ts lines = concat (map (\<lambda>(sig, window). locate sig window lines) ts)"

definition remove_sections :: "document \<Rightarrow> span list" where
  "remove_sections lines = sections_for targets lines"

section \<open>clean_ui.py: the removal loop\<close>

text \<open>
  \<^verbatim>\<open>remove_sections.sort(reverse=True)\<close> orders the tuples descending in Python's
  lexicographic order on pairs; the loop then deletes each slice from the copy.
\<close>

definition removal_order :: "span list \<Rightarrow> span list" where
  "removal_order spans = rev (sort spans)"

definition excise_all :: "'a list \<Rightarrow> span list \<Rightarrow> 'a list" where
  "excise_all lines spans =
     foldl (\<lambda>out (s, e). del_slice s e out) lines (removal_order spans)"

text \<open>The script as a whole: the content it reads and the content it writes back.\<close>

definition clean_ui :: "document \<Rightarrow> document" where
  "clean_ui lines = excise_all lines (remove_sections lines)"

definition clean_with :: "(string \<times> nat) list \<Rightarrow> document \<Rightarrow> document" where
  "clean_with ts lines = excise_all lines (sections_for ts lines)"

section \<open>The vocabulary of the specification\<close>

text \<open>
  The running balance and the opened flag after a run of lines, as the specification
  words them: the balance is the number of opening braces minus the number of closing
  braces seen, and the flag tells whether an opening brace has been seen.
\<close>

definition balance :: "line list \<Rightarrow> int" where
  "balance ls = (\<Sum>l\<leftarrow>ls. int (count_list l CHR ''{'') - int (count_list l CHR ''}''))"

definition opened :: "line list \<Rightarrow> bool" where
  "opened ls = (\<exists>l \<in> set ls. CHR ''{'' \<in> set l)"

text \<open>Line \<open>j\<close> closes the block that starts at line \<open>i\<close>.\<close>

definition closes_at :: "document \<Rightarrow> nat \<Rightarrow> nat \<Rightarrow> bool" where
  "closes_at lines i j =
     (opened (slice i (j + 1) lines) \<and> balance (slice i (j + 1) lines) = 0)"

definition overlap :: "span \<Rightarrow> span \<Rightarrow> bool" where
  "overlap a b = (fst a < snd b \<and> fst b < snd a)"

fun non_overlapping :: "span list \<Rightarrow> bool" where
  "non_overlapping [] = True"
| "non_overlapping (a # rest) = ((\<forall>b \<in> set rest. \<not> overlap a b) \<and> non_overlapping rest)"

text \<open>A span of a document of \<open>n\<close> lines: \<open>start < end \<le> n\<close>.\<close>

definition valid_span :: "nat \<Rightarrow> span \<Rightarrow> bool" where
  "valid_span n sp = (fst sp < snd sp \<and> snd sp \<le> n)"

definition covered :: "span list \<Rightarrow> nat \<Rightarrow> bool" where
  "covered spans i = (\<exists>sp \<in> set spans. fst sp \<le> i \<and> i < snd sp)"

definition span_size :: "span \<Rightarrow> nat" where
  "span_size sp = snd sp - fst sp"

section \<open>Auxiliary notions for the proofs\<close>

text \<open>
  The exit test of the scan after \<open>k + 1\<close> lines of the window, started with balance
  \<open>bc\<close> and flag \<open>fo\<close>.
\<close>

definition hit :: "line list \<Rightarrow> int \<Rightarrow> bool \<Rightarrow> nat \<Rightarrow> bool" where
  "hit ls bc fo k =
     ((fo \<or> opened (take (Suc k) ls)) \<and> bc + balance (take (Suc k) ls) = 0)"

text \<open>The five-line block of the specification's example.\<close>

definition example_block :: document where
  "example_block = [''sig() {'', ''  if (x) {'', ''    y();'', ''  }'', ''}'']"

section \<open>Ordered spans, extraction and re-insertion\<close>

text \<open>
  An ascending chain of spans inside \<open>[lo, hi)\<close>: every span is non-empty and begins
  at or after the end of the one before it.
\<close>

fun disjoint_asc :: "nat \<Rightarrow> nat \<Rightarrow> span list \<Rightarrow> bool" where
  "disjoint_asc lo hi [] = True"
| "disjoint_asc lo hi (sp # rest) =
     (lo \<le> fst sp \<and> fst sp < snd sp \<and> snd sp \<le> hi \<and> disjoint_asc (snd sp) hi rest)"

text \<open>
  extract_canvas.py copies a block out with a slice, \<^verbatim>\<open>ui_lines[start:end]\<close>.
\<close>

definition extract_lines :: "document \<Rightarrow> span \<Rightarrow> line list" where
  "extract_lines lines sp = slice (fst sp) (snd sp) lines"

text \<open>
  Putting the extracted lines back, as the specification words it: the spans are taken in
  ascending order, and the lines of each are inserted at the span's start, which is its
  excision point once the spans before it are restored.
\<close>

definition reinsert_all :: "document \<Rightarrow> document \<Rightarrow> span list \<Rightarrow> document" where
  "reinsert_all original excised spans =
     foldl (\<lambda>d sp. take (fst sp) d @ extract_lines original sp @ drop (fst sp) d) excised (sort spans)"

text \<open>One pass of the removal loop.\<close>

abbreviation del_span :: "span \<Rightarrow> 'a list \<Rightarrow> 'a list" where
  "del_span \<equiv> (\<lambda>sp out. del_slice (fst sp) (snd sp) out)"

text \<open>The sixteen-line document of the specification's removal example.\<close>

definition example_doc :: document where
  "example_doc =
     [''l0'', ''l1'', ''l2'', ''l3'', ''l4'', ''l5'', ''l6'', ''l7'',
      ''l8'', ''l9'', ''l10'', ''l11'', ''l12'', ''l13'', ''l14'', ''l15'']"

text \<open>
  Two nested target blocks followed by a line outside both, a document with one target
  block only, and a document in which the signature of a target occurs a second time
  inside the target's own block.
\<close>

definition nested_doc :: document where
  "nested_doc =
     [''void UI::UpdateCursor() {'',
      ''void UI::LoadEyedropperCursor() {'',
      ''}'',
      ''}'',
      ''keep'']"

definition single_doc :: document where
  "single_doc = [''void UI::UpdateCursor() {'', ''}'', ''keep'']"

definition repeated_doc :: document where
  "repeated_doc =
     [''void UI::UpdateCursor() {'',
      ''  { // was: void UI::UpdateCursor()'',
      ''  }'',
      ''}'',
      ''keep'']"

section \<open>Strings: literal replacement and stripping\<close>

text \<open>
  A character is a code point below 256; text with code points beyond that is outside
  this model. Python's \<^verbatim>\<open>s.replace(old, new)\<close> replaces the non-overlapping
  occurrences of \<open>old\<close> from left to right; for an empty \<open>old\<close> it puts \<open>new\<close> before
  every character and at the end.
\<close>

function replace_from :: "string \<Rightarrow> string \<Rightarrow> string \<Rightarrow> string" where
  "replace_from old new [] = []"
| "replace_from old new (c # cs) =
     (if old \<noteq> [] \<and> prefix old (c # cs)
      then new @ replace_from old new (drop (length old) (c # cs))
      else c # replace_from old new cs)"
  by pat_completeness auto
termination
  by (relation "measure (\<lambda>(old, new, s). length s)") auto

definition str_replace :: "string \<Rightarrow> string \<Rightarrow> string \<Rightarrow> string" where
  "str_replace old new s =
     (if old = [] then new @ concat (map (\<lambda>c. c # new) s) else replace_from old new s)"

text \<open>
  \<^verbatim>\<open>str.isspace\<close> on one character, and \<^verbatim>\<open>s.lstrip()\<close>, which drops the leading
  whitespace.
\<close>

definition is_space :: "char \<Rightarrow> bool" where
  "is_space c =
     (let n = (of_char c :: nat)
      in (9 \<le> n \<and> n \<le> 13) \<or> (28 \<le> n \<and> n \<le> 32) \<or> n = 133 \<or> n = 160)"

definition lstrip :: "string \<Rightarrow> string" where
  "lstrip s = dropWhile is_space s"

section \<open>update_refs.py\<close>

text \<open>
  The regular-expression class \<^verbatim>\<open>\w\<close> of a \<^verbatim>\<open>str\<close> pattern: the alphanumeric
  characters and the underscore.
\<close>

definition is_word :: "char \<Rightarrow> bool" where
  "is_word c =
     (let n = (of_char c :: nat)
      in (48 \<le> n \<and> n \<le> 57) \<or> (65 \<le> n \<and> n \<le> 90) \<or> n = 95 \<or> (97 \<le> n \<and> n \<le> 122) \<or>
         n = 170 \<or> n = 178 \<or> n = 179 \<or> n = 181 \<or> n = 185 \<or> n = 186 \<or>
         (188 \<le> n \<and> n \<le> 190) \<or> (192 \<le> n \<and> n \<le> 214) \<or> (216 \<le> n \<and> n \<le> 246) \<or>
         (248 \<le> n \<and> n \<le> 255))"

fun first_char :: "string \<Rightarrow> char option" where
  "first_char [] = None"
| "first_char (c # cs) = Some c"

definition word_at :: "char option \<Rightarrow> bool" where
  "word_at p = (case p of None \<Rightarrow> False | Some c \<Rightarrow> is_word c)"

text \<open>
  \<^verbatim>\<open>\b\<close> between the character before and the character after a position; the start
  and the end of the string count as non-word.
\<close>

definition boundary :: "char option \<Rightarrow> char option \<Rightarrow> bool" where
  "boundary p n = (word_at p \<noteq> word_at n)"

text \<open>
  The pattern \<^verbatim>\<open>(?<!QUAL\.)(?<!\.)\bVAR\b\<close> tried at one position. \<open>bef\<close> is the text
  before the position, reversed, and \<open>rest\<close> the text from the position on. The script
  has \<open>QUAL = m_canvasPanel\<close>; \<open>VAR\<close> is a name of \<open>moved_vars\<close>, a plain identifier,
  so it matches literally.
\<close>

definition matches_at :: "string \<Rightarrow> string \<Rightarrow> string \<Rightarrow> string \<Rightarrow> bool" where
  "matches_at q var bef rest =
     (\<not> prefix (rev (q @ ''.'')) bef \<and>
      \<not> prefix ''.'' bef \<and>
      boundary (first_char bef) (first_char rest) \<and>
      prefix var rest \<and>
      boundary (first_char (rev var @ bef)) (first_char (drop (length var) rest)))"

text \<open>
  \<^verbatim>\<open>re.sub(pattern, QUAL + '.' + VAR, content)\<close> for a non-empty \<open>VAR\<close>: the
  leftmost match is replaced and the scan goes on behind it; where the pattern does not
  match, the character is copied.
\<close>

function sub_go :: "string \<Rightarrow> string \<Rightarrow> string \<Rightarrow> string \<Rightarrow> string" where
  "sub_go q var bef [] = []"
| "sub_go q var bef (c # cs) =
     (if var \<noteq> [] \<and> matches_at q var bef (c # cs)
      then (q @ ''.'' @ var) @ sub_go q var (rev var @ bef) (drop (length var) (c # cs))
      else c # sub_go q var (c # bef) cs)"
  by pat_completeness auto
termination
  by (relation "measure (\<lambda>(q, var, bef, s). length s)") auto

definition sub_var :: "string \<Rightarrow> string \<Rightarrow> string \<Rightarrow> string" where
  "sub_var q var content = sub_go q var [] content"

definition moved_vars :: "string list" where
  "moved_vars =
     [''currentTool'', ''selectedTileId'', ''hoveredTileX'', ''hoveredTileY'',
      ''isHoveringCanvas'', ''isSelecting'', ''selectionStartX'', ''selectionStartY'',
      ''selectionEndX'', ''selectionEndY'', ''isPainting'', ''lastPaintedTileX'',
      ''lastPaintedTileY'', ''currentPaintChanges'', ''twoFingerEraseActive'',
      ''isModifyingEdges'', ''currentEdgeChanges'', ''selectedIconName'', ''markerLabel'',
      ''markerColor'', ''markerColorHex'', ''selectedMarker'', ''hoveredMarker'',
      ''isDraggingMarker'', ''dragStartX'', ''dragStartY'', ''copiedMarkers'',
      ''hoveredEdge'', ''isHoveringEdge'', ''eyedropperAutoSwitchToPaint'', ''lastTool'',
      ''selectedRoomId'', ''roomPaintMode'', ''showRoomOverlays'', ''isPaintingRoomCells'',
      ''lastRoomPaintX'', ''lastRoomPaintY'', ''currentRoomAssignments'',
      ''eraserBrushSize'']"

text \<open>The script: the content of the file read, and the content written back.\<close>

definition update_refs :: "string \<Rightarrow> string" where
  "update_refs content =
     foldl (\<lambda>c var. sub_var ''m_canvasPanel'' var c)
       (str_replace ''Tool::'' ''CanvasPanel::Tool::'' content) moved_vars"

text \<open>An identifier: a non-empty run of word characters.\<close>

definition ident :: "string \<Rightarrow> bool" where
  "ident v = (v \<noteq> [] \<and> list_all is_word v)"

section \<open>extract_canvas.py: adapting the extracted lines\<close>

text \<open>
  The script copies three blocks out of the document with fixed slices and adapts each
  line of a block before it appends it to the output. The fixed header and footer lines
  it writes around the blocks are not modelled. The render block gets three literal
  replacements, one after the other, and then the deferral of \<^verbatim>\<open>ShowToast(\<close> calls.
\<close>

definition helper_span :: span where "helper_span = (61, 97)"
definition detect_span :: span where "detect_span = (1973, 2033)"
definition render_span :: span where "render_span = (2034, 3783)"

definition apply_rules :: "(string \<times> string) list \<Rightarrow> string \<Rightarrow> string" where
  "apply_rules rules l = foldl (\<lambda>a (old, new). str_replace old new a) l rules"

definition helper_rules :: "(string \<times> string) list" where
  "helper_rules = [(''static std::vector'', ''std::vector'')]"

definition detect_rules :: "(string \<times> string) list" where
  "detect_rules = [(''bool UI::DetectEdgeHover'', ''bool CanvasPanel::DetectEdgeHover'')]"

definition render_rules :: "(string \<times> string) list" where
  "render_rules =
     [(''void UI::RenderCanvasPanel'', ''void CanvasPanel::Render''),
      (''showPropertiesPanel = !showPropertiesPanel'',
       ''*showPropertiesPanel = !(*showPropertiesPanel)''),
      (''m_layoutInitialized = false'', ''*layoutInitialized = false'')]"

definition defer_marker :: string where
  "defer_marker = ''ShowToast(''"

definition defer_prefix :: string where
  "defer_prefix = ''// TODO: Re-enable toast: ''"

definition adapt_render_line :: "line \<Rightarrow> line" where
  "adapt_render_line l =
     (let a = apply_rules render_rules l
      in if has_sub defer_marker a then defer_prefix @ lstrip a else a)"

definition adapt_render :: "line list \<Rightarrow> line list" where
  "adapt_render ls = map adapt_render_line ls"

definition adapt_helper :: "line list \<Rightarrow> line list" where
  "adapt_helper ls = map (apply_rules helper_rules) ls"

definition adapt_detect :: "line list \<Rightarrow> line list" where
  "adapt_detect ls = map (apply_rules detect_rules) ls"

text \<open>The three adapted blocks, in the order in which the script appends them.\<close>

definition extract_canvas :: "document \<Rightarrow> line list \<times> line list \<times> line list" where
  "extract_canvas ui_lines =
     (adapt_helper (extract_lines ui_lines helper_span),
      adapt_detect (extract_lines ui_lines detect_span),
      adapt_render (extract_lines ui_lines render_span))"




text \<open>
  The loop of update_refs.py over a list of names, and the two conditions under which a
  piece of text is rewritten independently of its neighbour: it ends with a character
  that is neither a word character nor a dot, or it begins with a character that is not
  a word character.
\<close>

definition passes :: "string list \<Rightarrow> string \<Rightarrow> string" where
  "passes vs content = foldl (\<lambda>c var. sub_var ''m_canvasPanel'' var c) content vs"

definition clean_end :: "string \<Rightarrow> bool" where
  "clean_end a = (a = [] \<or> (\<not> is_word (last a) \<and> last a \<noteq> CHR ''.''))"

definition clean_start :: "string \<Rightarrow> bool" where
  "clean_start b = (b = [] \<or> \<not> is_word (hd b))"

section \<open>The brace-balance scan meets its specification\<close>

lemma count_list_absent: "c \<notin> set l \<Longrightarrow> count_list l c = 0"
  by (induction l) auto

lemma hit_Cons_0:
  "hit (l # ls) bc fo 0 =
     ((fo \<or> CHR ''{'' \<in> set l) \<and>
      bc + int (count_list l CHR ''{'') - int (count_list l CHR ''}'') = 0)"
  by (auto simp: hit_def opened_def balance_def)

lemma hit_Cons_Suc:
  "hit (l # ls) bc fo (Suc k) =
     hit ls (bc + int (count_list l CHR ''{'') - int (count_list l CHR ''}''))
       (fo \<or> CHR ''{'' \<in> set l) k"
  by (auto simp: hit_def opened_def balance_def)

lemma scan_braces_step:
  "scan_braces (l # ls) j bc fo =
     (if hit (l # ls) bc fo 0 then Some (j + 1)
      else scan_braces ls (j + 1)
             (bc + int (count_list l CHR ''{'') - int (count_list l CHR ''}''))
             (fo \<or> CHR ''{'' \<in> set l))"
  by (simp add: hit_Cons_0 Let_def count_list_absent)

lemma scan_braces_None:
  "scan_braces ls j bc fo = None \<longleftrightarrow> (\<forall>k < length ls. \<not> hit ls bc fo k)"
proof (induction ls arbitrary: j bc fo)
  case Nil
  show ?case by simp
next
  case (Cons l ls)
  show ?case
  proof (cases "hit (l # ls) bc fo 0")
    case True
    then have "scan_braces (l # ls) j bc fo \<noteq> None"
      by (simp add: scan_braces_step del: scan_braces.simps)
    moreover from True have "\<not> (\<forall>k < length (l # ls). \<not> hit (l # ls) bc fo k)"
      by auto
    ultimately show ?thesis by blast
  next
    case False
    have "(\<forall>k < length (l # ls). \<not> hit (l # ls) bc fo k) \<longleftrightarrow>
          (\<forall>k < length ls. \<not> hit (l # ls) bc fo (Suc k))"
      using False by (auto simp: less_Suc_eq_0_disj)
    then show ?thesis
      using False by (simp add: scan_braces_step Cons.IH hit_Cons_Suc del: scan_braces.simps)
  qed
qed

lemma scan_braces_Some:
  "scan_braces ls j bc fo = Some e \<longleftrightarrow>
     (\<exists>k < length ls. e = j + k + 1 \<and> hit ls bc fo k \<and> (\<forall>k' < k. \<not> hit ls bc fo k'))"
proof (induction ls arbitrary: j bc fo)
  case Nil
  show ?case by simp
next
  case (Cons l ls)
  let ?bc = "bc + int (count_list l CHR ''{'') - int (count_list l CHR ''}'')"
  let ?fo = "fo \<or> CHR ''{'' \<in> set l"
  show ?case
  proof (cases "hit (l # ls) bc fo 0")
    case True
    have "(\<exists>k < length (l # ls). e = j + k + 1 \<and> hit (l # ls) bc fo k \<and>
             (\<forall>k' < k. \<not> hit (l # ls) bc fo k')) \<longleftrightarrow> e = j + 1"
    proof
      assume "\<exists>k < length (l # ls). e = j + k + 1 \<and> hit (l # ls) bc fo k \<and>
             (\<forall>k' < k. \<not> hit (l # ls) bc fo k')"
      then obtain k where k: "e = j + k + 1" "\<forall>k' < k. \<not> hit (l # ls) bc fo k'" by blast
      from k(2) True have "k = 0" by (cases k) auto
      with k(1) show "e = j + 1" by simp
    next
      assume "e = j + 1"
      with True show "\<exists>k < length (l # ls). e = j + k + 1 \<and> hit (l # ls) bc fo k \<and>
             (\<forall>k' < k. \<not> hit (l # ls) bc fo k')"
        by (intro exI[of _ 0]) simp
    qed
    with True show ?thesis by (auto simp: scan_braces_step simp del: scan_braces.simps)
  next
    case False
    have "(\<exists>k < length (l # ls). e = j + k + 1 \<and> hit (l # ls) bc fo k \<and>
             (\<forall>k' < k. \<not> hit (l # ls) bc fo k')) \<longleftrightarrow>
          (\<exists>k < length ls. e = (j + 1) + k + 1 \<and> hit ls ?bc ?fo k \<and>
             (\<forall>k' < k. \<not> hit ls ?bc ?fo k'))" (is "?L \<longleftrightarrow> ?R")
    proof
      assume ?L
      then obtain k where k: "k < length (l # ls)" "e = j + k + 1" "hit (l # ls) bc fo k"
        "\<forall>k' < k. \<not> hit (l # ls) bc fo k'" by blast
      from k(3) False obtain m where m: "k = Suc m" by (cases k) auto
      have "\<forall>k' < m. \<not> hit ls ?bc ?fo k'"
      proof (intro allI impI)
        fix k' assume "k' < m"
        then have "Suc k' < k" using m by simp
        with k(4) have "\<not> hit (l # ls) bc fo (Suc k')" by blast
        then show "\<not> hit ls ?bc ?fo k'" by (simp add: hit_Cons_Suc)
      qed
      moreover have "hit ls ?bc ?fo m" using k(3) m by (simp add: hit_Cons_Suc)
      ultimately show ?R using k(1,2) m by (intro exI[of _ m]) simp
    next
      assume ?R
      then obtain m where m: "m < length ls" "e = (j + 1) + m + 1" "hit ls ?bc ?fo m"
        "\<forall>k' < m. \<not> hit ls ?bc ?fo k'" by blast
      have "\<forall>k' < Suc m. \<not> hit (l # ls) bc fo k'"
      proof (intro allI impI)
        fix k' assume k': "k' < Suc m"
        show "\<not> hit (l # ls) bc fo k'"
        proof (cases k')
          case 0
          with False show ?thesis by simp
        next
          case (Suc n)
          with k' m(4) show ?thesis by (simp add: hit_Cons_Suc)
        qed
      qed
      moreover have "hit (l # ls) bc fo (Suc m)" using m(3) by (simp add: hit_Cons_Suc)
      ultimately show ?L using m(1,2) by (intro exI[of _ "Suc m"]) simp
    qed
    with False show ?thesis
      by (simp add: scan_braces_step Cons.IH del: scan_braces.simps)
  qed
qed

lemma hit_window:
  assumes "k < length (take window (drop i lines))"
  shows "hit (take window (drop i lines)) 0 False k = closes_at lines i (i + k)"
proof -
  from assms have "Suc k \<le> window" by simp
  then have "take (Suc k) (take window (drop i lines)) = slice i (i + k + 1) lines"
    by (simp add: slice_def min_def)
  then show ?thesis by (simp add: hit_def closes_at_def)
qed

text \<open>
  Claim C3. The boundary scan started at line \<open>i\<close> with a window of \<open>window\<close> lines
  returns \<open>e\<close> exactly when line \<open>e - 1\<close> lies in the window
  \<open>[i, min (i + window) (length lines))\<close> and is the first line at which an opening brace
  has been seen and the running balance is back at 0; it returns nothing exactly when no
  line of the window is such a line.
\<close>

theorem find_end_spec:
  "(find_end lines i window = Some e \<longleftrightarrow>
      i < e \<and> e \<le> min (i + window) (length lines) \<and> closes_at lines i (e - 1) \<and>
      (\<forall>j. i \<le> j \<and> j < e - 1 \<longrightarrow> \<not> closes_at lines i j)) \<and>
   (find_end lines i window = None \<longleftrightarrow>
      (\<forall>j. i \<le> j \<and> j < min (i + window) (length lines) \<longrightarrow> \<not> closes_at lines i j))"
proof
  let ?w = "take window (drop i lines)"
  have len: "length ?w = min (i + window) (length lines) - i" by auto
  show "find_end lines i window = Some e \<longleftrightarrow>
      i < e \<and> e \<le> min (i + window) (length lines) \<and> closes_at lines i (e - 1) \<and>
      (\<forall>j. i \<le> j \<and> j < e - 1 \<longrightarrow> \<not> closes_at lines i j)" (is "?L \<longleftrightarrow> ?R")
  proof
    assume ?L
    then obtain k where k: "k < length ?w" "e = i + k + 1" "hit ?w 0 False k"
      "\<forall>k' < k. \<not> hit ?w 0 False k'"
      unfolding find_end_def scan_braces_Some by blast
    have "\<not> closes_at lines i j" if "i \<le> j" "j < e - 1" for j
    proof -
      from that k(2) have "j - i < k" by simp
      with k(4) have "\<not> hit ?w 0 False (j - i)" by blast
      moreover have "j - i < length ?w" using \<open>j - i < k\<close> k(1) by simp
      ultimately show ?thesis using that(1) by (simp add: hit_window)
    qed
    moreover have "closes_at lines i (e - 1)" using k(1,2,3) by (simp add: hit_window)
    moreover have "e \<le> min (i + window) (length lines)" using k(1,2) by auto
    ultimately show ?R using k(2) by simp
  next
    assume r: ?R
    define k where "k = e - 1 - i"
    from r have e: "e = i + k + 1" and kl: "k < length ?w" unfolding k_def len by auto
    have "hit ?w 0 False k" using r kl e by (simp add: hit_window)
    moreover have "\<forall>k' < k. \<not> hit ?w 0 False k'"
    proof (intro allI impI)
      fix k' assume "k' < k"
      then have "k' < length ?w" "i + k' < e - 1" using kl e by simp_all
      then show "\<not> hit ?w 0 False k'" using r by (simp add: hit_window)
    qed
    ultimately show ?L unfolding find_end_def scan_braces_Some using kl e by blast
  qed
  show "find_end lines i window = None \<longleftrightarrow>
      (\<forall>j. i \<le> j \<and> j < min (i + window) (length lines) \<longrightarrow> \<not> closes_at lines i j)"
    (is "?L \<longleftrightarrow> ?R")
  proof
    assume l: ?L
    show ?R
    proof (intro allI impI)
      fix j assume j: "i \<le> j \<and> j < min (i + window) (length lines)"
      then have "j - i < length ?w" unfolding len by auto
      moreover from l have "\<forall>k < length ?w. \<not> hit ?w 0 False k"
        unfolding find_end_def scan_braces_None .
      ultimately have "\<not> hit ?w 0 False (j - i)" by blast
      then show "\<not> closes_at lines i j" using \<open>j - i < length ?w\<close> j by (simp add: hit_window)
    qed
  next
    assume r: ?R
    have "\<forall>k < length ?w. \<not> hit ?w 0 False k"
    proof (intro allI impI)
      fix k assume k: "k < length ?w"
      then have "i + k < min (i + window) (length lines)" unfolding len by auto
      with r have "\<not> closes_at lines i (i + k)" by simp
      then show "\<not> hit ?w 0 False k" using k by (simp add: hit_window)
    qed
    then show ?L unfolding find_end_def scan_braces_None .
  qed
qed

theorem find_end_spec_witness:
  "find_end example_block 0 100 = Some 5 \<and> closes_at example_block 0 4 \<and>
   \<not> closes_at example_block 0 3 \<and> find_end example_block 0 3 = None"
proof -
  have a: "find_end example_block 0 100 = Some 5"
    by (simp add: find_end_def example_block_def)
  have b: "find_end example_block 0 3 = None"
    by (simp add: find_end_def example_block_def)
  from a find_end_spec [of example_block 0 100 5]
  have "closes_at example_block 0 4 \<and> \<not> closes_at example_block 0 3" by simp
  with a b show ?thesis by simp
qed

section \<open>Removal of non-overlapping spans\<close>

lemma excise_all_foldr:
  "excise_all xs spans = foldr del_span (sort spans) xs"
  by (simp add: excise_all_def removal_order_def foldl_conv_foldr case_prod_beta)

lemma nths_cong_below:
  "(\<And>i. i < length xs \<Longrightarrow> i \<in> A \<longleftrightarrow> i \<in> B) \<Longrightarrow> nths xs A = nths xs B"
proof -
  assume a: "\<And>i. i < length xs \<Longrightarrow> i \<in> A \<longleftrightarrow> i \<in> B"
  have "filter (\<lambda>p. snd p \<in> A) (zip xs [0..<length xs]) =
        filter (\<lambda>p. snd p \<in> B) (zip xs [0..<length xs])"
    by (rule filter_cong) (auto dest!: set_zip_rightD simp: a)
  then show ?thesis by (simp add: nths_def)
qed

lemma disjoint_asc_bounds:
  "disjoint_asc lo hi asc \<Longrightarrow> sp \<in> set asc \<Longrightarrow> lo \<le> fst sp \<and> fst sp < snd sp \<and> snd sp \<le> hi"
proof (induction asc arbitrary: lo)
  case Nil
  then show ?case by simp
next
  case (Cons a asc)
  show ?case
  proof (cases "sp = a")
    case True
    with Cons.prems show ?thesis by simp
  next
    case False
    with Cons.prems have "sp \<in> set asc" "disjoint_asc (snd a) hi asc" by simp_all
    from Cons.IH [OF this(2) this(1)] Cons.prems(1) show ?thesis by simp
  qed
qed

lemma disjoint_asc_uncovered:
  "disjoint_asc lo hi asc \<Longrightarrow> i < lo \<Longrightarrow> \<not> covered asc i"
  by (auto simp: covered_def dest: disjoint_asc_bounds)

text \<open>The effect of deleting ascending, disjoint spans from the last to the first.\<close>

lemma foldr_del_asc:
  assumes "disjoint_asc lo (length xs) asc"
  shows "foldr del_span asc xs = nths xs {i. \<not> covered asc i} \<and>
         take lo (foldr del_span asc xs) = take lo xs \<and>
         length (foldr del_span asc xs) + sum_list (map span_size asc) = length xs"
  using assms
proof (induction asc arbitrary: lo)
  case Nil
  show ?case by (simp add: covered_def nths_all)
next
  case (Cons sp rest)
  obtain s e where sp: "sp = (s, e)" by (cases sp)
  let ?R = "foldr del_span rest xs"
  let ?U = "{i. \<not> covered rest i}"
  let ?U' = "{i. \<not> covered (sp # rest) i}"
  from Cons.prems sp have b: "lo \<le> s" "s < e" "e \<le> length xs"
    and d: "disjoint_asc e (length xs) rest" by simp_all
  from Cons.IH [OF d] have R: "?R = nths xs ?U" and tR: "take e ?R = take e xs"
    and lR: "length ?R + sum_list (map span_size rest) = length xs" by blast+
  from tR b(3) have eR: "e \<le> length ?R"
    by (metis length_take min.absorb2 min.cobounded1 min.commute)
  have del: "foldr del_span (sp # rest) xs = take s ?R @ drop e ?R"
    using b(2) by (simp add: sp del_slice_def max_def)
  have low: "\<forall>i < e. i \<in> ?U" using disjoint_asc_uncovered [OF d] by simp
  define T where "T = nths (drop e xs) {j. j + e \<in> ?U}"
  have le: "length (take e xs) = e" using b(3) by simp
  have "nths xs ?U = nths (take e xs @ drop e xs) ?U" by simp
  also have "\<dots> = nths (take e xs) ?U @ T"
    unfolding T_def nths_append le ..
  also have "nths (take e xs) ?U = take e xs" using low by (intro nths_all) simp
  finally have Rsplit: "?R = take e xs @ T" using R by simp
  have tsR: "take s ?R = take s xs"
    using b(2) le by (simp add: Rsplit)
  have deR: "drop e ?R = T" using le by (simp add: Rsplit)
  have U'hi: "{j. j + e \<in> ?U'} = {j. j + e \<in> ?U}"
    by (auto simp: covered_def sp)
  have "nths (take e xs) ?U' = nths (take e xs) {..<s}"
  proof (rule nths_cong_below)
    fix i assume "i < length (take e xs)"
    then have "i < e" by simp
    then have "\<not> covered rest i" using low by simp
    then show "i \<in> ?U' \<longleftrightarrow> i \<in> {..<s}" using \<open>i < e\<close> by (auto simp: covered_def sp)
  qed
  also have "\<dots> = take s xs" using b(2) by (simp add: min_def)
  finally have lowpart: "nths (take e xs) ?U' = take s xs" .
  have "nths xs ?U' = nths (take e xs @ drop e xs) ?U'" by simp
  also have "\<dots> = nths (take e xs) ?U' @ nths (drop e xs) {j. j + e \<in> ?U'}"
    unfolding nths_append le ..
  also have "\<dots> = take s xs @ T" by (simp only: lowpart U'hi T_def)
  finally have a: "foldr del_span (sp # rest) xs = nths xs ?U'"
    by (simp only: del tsR deR)
  have "take lo (take s ?R @ drop e ?R) = take lo ?R"
    using b(1,2) eR by simp
  also have "\<dots> = take lo (take e ?R)" using b(1,2) by (simp add: min_def)
  also have "\<dots> = take lo xs" using b(1,2) by (simp add: tR min_def)
  finally have t: "take lo (foldr del_span (sp # rest) xs) = take lo xs"
    by (simp only: del)
  have "length (take s ?R @ drop e ?R) + span_size sp = length ?R"
    using b(2) eR by (simp add: span_size_def sp)
  then have l: "length (foldr del_span (sp # rest) xs) + sum_list (map span_size (sp # rest)) =
      length xs" using lR by (simp only: del) simp
  from a t l show ?case by blast
qed

text \<open>Sorting valid, pairwise non-overlapping spans yields an ascending disjoint chain.\<close>

lemma non_overlapping_set:
  "non_overlapping spans \<Longrightarrow> \<forall>sp \<in> set spans. fst sp < snd sp \<Longrightarrow>
   distinct spans \<and> (\<forall>a \<in> set spans. \<forall>b \<in> set spans. a \<noteq> b \<longrightarrow> \<not> overlap a b)"
proof (induction spans)
  case Nil
  show ?case by simp
next
  case (Cons a rest)
  then have IH: "distinct rest" "\<forall>x \<in> set rest. \<forall>y \<in> set rest. x \<noteq> y \<longrightarrow> \<not> overlap x y"
    by simp_all
  from Cons.prems have na: "\<forall>b \<in> set rest. \<not> overlap a b" and va: "fst a < snd a" by simp_all
  have "a \<notin> set rest"
  proof
    assume "a \<in> set rest"
    with na have "\<not> overlap a a" by blast
    with va show False by (simp add: overlap_def)
  qed
  moreover have "\<not> overlap b a" if "b \<in> set rest" for b
    using na that by (auto simp: overlap_def)
  ultimately show ?case using IH na by auto
qed

lemma sorted_disjoint_asc:
  assumes "sorted asc" "distinct asc"
    and "\<forall>sp \<in> set asc. lo \<le> fst sp \<and> fst sp < snd sp \<and> snd sp \<le> hi"
    and "\<forall>a \<in> set asc. \<forall>b \<in> set asc. a \<noteq> b \<longrightarrow> \<not> overlap a b"
  shows "disjoint_asc lo hi asc"
  using assms
proof (induction asc arbitrary: lo)
  case Nil
  show ?case by simp
next
  case (Cons a rest)
  have "snd a \<le> fst b \<and> fst b < snd b \<and> snd b \<le> hi" if "b \<in> set rest" for b
  proof -
    from Cons.prems(1) that have "a \<le> b" by simp
    moreover from Cons.prems(2) that have "a \<noteq> b" by auto
    moreover from Cons.prems(4) that \<open>a \<noteq> b\<close> have "\<not> overlap a b" by simp
    moreover from Cons.prems(3) that have "fst b < snd b" "snd b \<le> hi" "fst a < snd a" by simp_all
    ultimately show ?thesis
      by (cases a; cases b) (auto simp: overlap_def)
  qed
  then have "disjoint_asc (snd a) hi rest"
    using Cons.prems by (intro Cons.IH) auto
  with Cons.prems(3) show ?case by simp
qed

lemma sort_disjoint_asc:
  assumes "\<forall>sp \<in> set spans. valid_span n sp" "non_overlapping spans"
  shows "disjoint_asc 0 n (sort spans)"
proof -
  from assms have v: "\<forall>sp \<in> set spans. fst sp < snd sp" by (simp add: valid_span_def)
  from non_overlapping_set [OF assms(2) v]
  have "distinct spans" "\<forall>a \<in> set spans. \<forall>b \<in> set spans. a \<noteq> b \<longrightarrow> \<not> overlap a b" by simp_all
  then show ?thesis using assms(1)
    by (intro sorted_disjoint_asc) (simp_all add: valid_span_def)
qed

lemma covered_sort: "covered (sort spans) = covered spans"
  by (simp add: covered_def fun_eq_iff)

lemma sum_sizes_sort: "sum_list (map span_size (sort spans)) = sum_list (map span_size spans)"
proof -
  have "mset (map span_size (sort spans)) = mset (map span_size spans)" by simp
  then show ?thesis by (metis sum_mset_sum_list)
qed

lemma excise_all_char:
  assumes "\<forall>sp \<in> set spans. valid_span (length xs) sp" "non_overlapping spans"
  shows "excise_all xs spans = nths xs {i. \<not> covered spans i}"
    and "length (excise_all xs spans) + sum_list (map span_size spans) = length xs"
proof -
  from foldr_del_asc [OF sort_disjoint_asc [OF assms]]
  have a: "foldr del_span (sort spans) xs = nths xs {i. \<not> covered (sort spans) i}"
    and b: "length (foldr del_span (sort spans) xs) + sum_list (map span_size (sort spans)) =
       length xs" by blast+
  from a show "excise_all xs spans = nths xs {i. \<not> covered spans i}"
    by (simp only: excise_all_foldr covered_sort)
  from b show "length (excise_all xs spans) + sum_list (map span_size spans) = length xs"
    by (simp only: excise_all_foldr sum_sizes_sort)
qed

text \<open>
  Claim C1. For a document of length \<open>L\<close> and spans of that document (each with
  \<open>start < end \<le> L\<close>) that pairwise do not overlap, the removal loop, run in descending
  order, yields a document of length \<open>L\<close> minus the sum of the span sizes, and that
  document is the original restricted to the indices no span covers: the retained lines,
  unaltered and in their original order.
\<close>

theorem excise_all_spec:
  assumes "\<forall>sp \<in> set spans. valid_span (length doc) sp" and "non_overlapping spans"
  shows "length (excise_all doc spans) = length doc - sum_list (map span_size spans) \<and>
         sum_list (map span_size spans) \<le> length doc \<and>
         excise_all doc spans = nths doc {i. \<not> covered spans i}"
  using excise_all_char [OF assms] by simp


theorem excise_all_spec_witness:
  "excise_all example_doc [(2, 5), (10, 14)] =
     [''l0'', ''l1'', ''l5'', ''l6'', ''l7'', ''l8'', ''l9'', ''l14'', ''l15''] \<and>
   length (excise_all example_doc [(2, 5), (10, 14)]) = 16 - (3 + 4) \<and>
   nths example_doc {i. \<not> covered [(2, 5), (10, 14)] i} =
     [''l0'', ''l1'', ''l5'', ''l6'', ''l7'', ''l8'', ''l9'', ''l14'', ''l15'']"
proof -
  have v: "\<forall>sp \<in> set [(2, 5), (10, 14)]. valid_span (length example_doc) sp"
    by (simp add: valid_span_def example_doc_def)
  have n: "non_overlapping [(2, 5), (10, 14)]" by (simp add: overlap_def)
  have e: "excise_all example_doc [(2, 5), (10, 14)] =
     [''l0'', ''l1'', ''l5'', ''l6'', ''l7'', ''l8'', ''l9'', ''l14'', ''l15'']"
    by (simp add: excise_all_def removal_order_def del_slice_def example_doc_def)
  from excise_all_spec [OF v n]
  have a: "length (excise_all example_doc [(2, 5), (10, 14)]) =
      length example_doc - sum_list (map span_size [(2, 5), (10, 14)])"
    and c: "excise_all example_doc [(2, 5), (10, 14)] =
      nths example_doc {i. \<not> covered [(2, 5), (10, 14)] i}" by blast+
  from a have "length (excise_all example_doc [(2, 5), (10, 14)]) = 16 - (3 + 4)"
    by (simp add: span_size_def example_doc_def)
  moreover from c e have "nths example_doc {i. \<not> covered [(2, 5), (10, 14)] i} =
     [''l0'', ''l1'', ''l5'', ''l6'', ''l7'', ''l8'', ''l9'', ''l14'', ''l15'']"
    by (simp only:)
  ultimately show ?thesis using e by blast
qed

section \<open>Extraction and excision together preserve the content\<close>

text \<open>Re-insertion undoes the deletion of an ascending disjoint chain.\<close>

lemma slice_nth:
  "e \<le> length xs \<Longrightarrow> slice s e xs = map ((!) xs) [s..<e]"
  by (rule nth_equalityI) (auto simp: slice_def)

lemma foldl_reinsert:
  assumes "disjoint_asc lo (length xs) asc"
  shows "foldl (\<lambda>d sp. take (fst sp) d @ extract_lines xs sp @ drop (fst sp) d)
           (foldr del_span asc xs) asc = xs"
  using assms
proof (induction asc arbitrary: lo)
  case Nil
  show ?case by simp
next
  case (Cons sp rest)
  obtain s e where sp: "sp = (s, e)" by (cases sp)
  let ?R = "foldr del_span rest xs"
  from Cons.prems sp have b: "lo \<le> s" "s < e" "e \<le> length xs"
    and d: "disjoint_asc e (length xs) rest" by simp_all
  from foldr_del_asc [OF d] have tR: "take e ?R = take e xs" by blast
  from tR b(3) have eR: "e \<le> length ?R"
    by (metis length_take min.absorb2 min.cobounded1 min.commute)
  have del: "foldr del_span (sp # rest) xs = take s ?R @ drop e ?R"
    using b(2) by (simp add: sp del_slice_def max_def)
  have ls: "length (take s ?R) = s" using b(2) eR by simp
  have "extract_lines xs sp = drop s (take e xs)"
    by (simp add: extract_lines_def slice_def sp drop_take)
  also have "\<dots> = drop s (take e ?R)" by (simp only: tR)
  finally have ex: "extract_lines xs sp = drop s (take e ?R)" .
  have t1: "take s (take s ?R @ drop e ?R) = take s ?R" using ls by simp
  have t2: "drop s (take s ?R @ drop e ?R) = drop e ?R" using ls by simp
  have fs: "fst sp = s" by (simp add: sp)
  have mid: "take s ?R @ drop s (take e ?R) @ drop e ?R = ?R"
  proof -
    have "take s ?R = take s (take e ?R)" using b(2) by (simp add: min_def)
    then have "take s ?R @ drop s (take e ?R) @ drop e ?R =
        (take s (take e ?R) @ drop s (take e ?R)) @ drop e ?R" by simp
    also have "\<dots> = ?R" by (simp only: append_take_drop_id)
    finally show ?thesis .
  qed
  have step: "take (fst sp) (take s ?R @ drop e ?R) @ extract_lines xs sp @
          drop (fst sp) (take s ?R @ drop e ?R) = ?R"
    by (simp only: fs t1 t2 ex mid)
  show ?case
    by (simp only: foldl_Cons del step Cons.IH [OF d])
qed

text \<open>
  Claim C6. Extraction returns the lines \<open>[start, end)\<close> of the document as they are
  and in order, and for valid, pairwise non-overlapping spans, re-inserting the extracted
  lines of each span at its excision point in the excised document gives the original
  document back.
\<close>

theorem extract_excise_roundtrip:
  assumes "\<forall>sp \<in> set spans. valid_span (length doc) sp" and "non_overlapping spans"
  shows "(\<forall>sp \<in> set spans. extract_lines doc sp = map ((!) doc) [fst sp..<snd sp]) \<and>
         reinsert_all doc (excise_all doc spans) spans = doc"
proof
  show "\<forall>sp \<in> set spans. extract_lines doc sp = map ((!) doc) [fst sp..<snd sp]"
    using assms(1) by (simp add: extract_lines_def slice_nth valid_span_def)
  show "reinsert_all doc (excise_all doc spans) spans = doc"
    unfolding reinsert_all_def excise_all_foldr
    by (rule foldl_reinsert [OF sort_disjoint_asc [OF assms]])
qed

theorem extract_excise_roundtrip_witness:
  "extract_lines example_doc (2, 5) = [''l2'', ''l3'', ''l4''] \<and>
   extract_lines example_doc (10, 14) = [''l10'', ''l11'', ''l12'', ''l13''] \<and>
   reinsert_all example_doc
     [''l0'', ''l1'', ''l5'', ''l6'', ''l7'', ''l8'', ''l9'', ''l14'', ''l15'']
     [(10, 14), (2, 5)] = example_doc"
proof -
  have v: "\<forall>sp \<in> set [(10, 14), (2, 5)]. valid_span (length example_doc) sp"
    by (simp add: valid_span_def example_doc_def)
  have n: "non_overlapping [(10, 14), (2, 5)]" by (simp add: overlap_def)
  have e: "excise_all example_doc [(10, 14), (2, 5)] =
     [''l0'', ''l1'', ''l5'', ''l6'', ''l7'', ''l8'', ''l9'', ''l14'', ''l15'']"
    by (simp add: excise_all_def removal_order_def del_slice_def example_doc_def)
  have x: "extract_lines example_doc (2, 5) = [''l2'', ''l3'', ''l4'']"
    "extract_lines example_doc (10, 14) = [''l10'', ''l11'', ''l12'', ''l13'']"
    by (simp_all add: extract_lines_def slice_def example_doc_def)
  from extract_excise_roundtrip [OF v n]
  have "reinsert_all example_doc (excise_all example_doc [(10, 14), (2, 5)]) [(10, 14), (2, 5)] =
      example_doc" by blast
  with e x show ?thesis by (simp only:) 
qed

section \<open>What the four searches schedule\<close>

lemma find_sig_Some:
  "find_sig sig ls i0 = Some i \<Longrightarrow>
     i0 \<le> i \<and> i - i0 < length ls \<and> has_sub sig (ls ! (i - i0)) \<and>
     (\<forall>k < i - i0. \<not> has_sub sig (ls ! k))"
proof (induction ls arbitrary: i0)
  case Nil
  then show ?case by simp
next
  case (Cons l ls)
  show ?case
  proof (cases "has_sub sig l")
    case True
    with Cons.prems show ?thesis by simp
  next
    case False
    with Cons.prems have f: "find_sig sig ls (Suc i0) = Some i" by simp
    from Cons.IH [OF f] have a: "Suc i0 \<le> i" "i - Suc i0 < length ls"
      "has_sub sig (ls ! (i - Suc i0))" "\<forall>k < i - Suc i0. \<not> has_sub sig (ls ! k)" by blast+
    from a(1) have d: "i - i0 = Suc (i - Suc i0)" by simp
    have "\<not> has_sub sig ((l # ls) ! k)" if "k < i - i0" for k
      using that a(4) False d by (cases k) auto
    with a d show ?thesis by simp
  qed
qed

lemma find_sig_None:
  "find_sig sig ls i0 = None \<longleftrightarrow> (\<forall>l \<in> set ls. \<not> has_sub sig l)"
  by (induction ls arbitrary: i0) auto

lemma find_end_bounds:
  assumes "find_end lines i window = Some e"
  shows "i < e \<and> e \<le> length lines"
proof -
  from assms obtain k where "k < length (take window (drop i lines))" "e = i + k + 1"
    unfolding find_end_def scan_braces_Some by blast
  then show ?thesis by auto
qed

lemma locate_cases:
  "locate sig window lines = [] \<or>
   (\<exists>i e. locate sig window lines = [(i, e)] \<and> find_sig sig lines 0 = Some i \<and>
      find_end lines i window = Some e)"
  by (auto simp: locate_def split: option.splits)

lemma locate_empty_iff:
  "locate sig window lines = [] \<longleftrightarrow>
     (find_sig sig lines 0 = None \<or>
      (\<exists>i. find_sig sig lines 0 = Some i \<and> find_end lines i window = None))"
  by (auto simp: locate_def split: option.splits)

lemma locate_valid:
  assumes "sp \<in> set (locate sig window lines)"
  shows "valid_span (length lines) sp"
proof -
  from assms locate_cases [of sig window lines]
  obtain i e where "sp = (i, e)" "find_end lines i window = Some e" by auto
  with find_end_bounds show ?thesis by (simp add: valid_span_def)
qed

lemma length_locate: "length (locate sig window lines) \<le> 1"
  using locate_cases [of sig window lines] by auto

lemma sections_for_valid:
  "sp \<in> set (sections_for ts lines) \<Longrightarrow> valid_span (length lines) sp"
  by (auto simp: sections_for_def dest: locate_valid)

lemma length_sections_for: "length (sections_for ts lines) \<le> length ts"
proof (induction ts)
  case Nil
  show ?case by (simp add: sections_for_def)
next
  case (Cons t ts)
  obtain sig w where t: "t = (sig, w)" by (cases t)
  have "sections_for (t # ts) lines = locate sig w lines @ sections_for ts lines"
    by (simp add: sections_for_def t)
  with Cons length_locate [of sig w lines] show ?case by simp
qed

lemma sections_for_remove1:
  assumes "locate sig window lines = []"
  shows "sections_for (remove1 (sig, window) ts) lines = sections_for ts lines"
  using assms by (induction ts) (auto simp: sections_for_def)

lemma clean_ui_clean_with: "clean_ui lines = clean_with targets lines"
  by (simp add: clean_ui_def clean_with_def remove_sections_def)

lemma excise_all_Nil: "excise_all xs [] = xs"
  by (simp add: excise_all_def removal_order_def)

section \<open>No overlap validation\<close>

text \<open>
  Claim C4, as stated, fails: in \<open>nested_doc\<close> the two located spans overlap, no error
  is raised, and the loop deletes both in turn.
\<close>

theorem overlap_not_rejected:
  "remove_sections nested_doc = [(1, 3), (0, 4)] \<and> overlap (1, 3) (0, 4) \<and>
   clean_ui nested_doc = []"
  by (simp add: clean_ui_def remove_sections_def sections_for_def targets_def locate_def
      find_end_def nested_doc_def overlap_def excise_all_def removal_order_def del_slice_def)

text \<open>
  Claim C4, amended. The removal list is built without any overlap validation and never
  fails: it holds the spans the scanner found, at most one per target and each with
  \<open>start < end \<le> length lines\<close>; the loop is handed exactly these spans, sorted
  descending, and deletes each of them in turn, overlapping or not. None is merged,
  dropped or reported.
\<close>

theorem removal_list_unvalidated:
  "length (remove_sections lines) \<le> 4 \<and>
   (\<forall>sp \<in> set (remove_sections lines). valid_span (length lines) sp) \<and>
   mset (removal_order (remove_sections lines)) = mset (remove_sections lines) \<and>
   sorted (rev (removal_order (remove_sections lines))) \<and>
   clean_ui lines =
     foldl (\<lambda>out sp. del_slice (fst sp) (snd sp) out) lines
       (removal_order (remove_sections lines))"
proof -
  have "length (remove_sections lines) \<le> length targets"
    unfolding remove_sections_def by (rule length_sections_for)
  then have "length (remove_sections lines) \<le> 4" by (simp add: targets_def)
  moreover have "\<forall>sp \<in> set (remove_sections lines). valid_span (length lines) sp"
    unfolding remove_sections_def by (blast dest: sections_for_valid)
  moreover have "mset (removal_order (remove_sections lines)) = mset (remove_sections lines)"
    by (simp add: removal_order_def)
  moreover have "sorted (rev (removal_order (remove_sections lines)))"
    by (simp add: removal_order_def)
  moreover have "clean_ui lines =
     foldl (\<lambda>out sp. del_slice (fst sp) (snd sp) out) lines
       (removal_order (remove_sections lines))"
    by (simp add: clean_ui_def excise_all_def case_prod_unfold)
  ultimately show ?thesis by blast
qed

theorem removal_list_unvalidated_witness:
  "remove_sections nested_doc = [(1, 3), (0, 4)] \<and>
   valid_span (length nested_doc) (1, 3) \<and> valid_span (length nested_doc) (0, 4) \<and>
   removal_order (remove_sections nested_doc) = [(1, 3), (0, 4)]"
proof -
  have r: "remove_sections nested_doc = [(1, 3), (0, 4)]"
    by (simp add: remove_sections_def sections_for_def targets_def locate_def
        find_end_def nested_doc_def)
  from removal_list_unvalidated [of nested_doc]
  have "\<forall>sp \<in> set (remove_sections nested_doc). valid_span (length nested_doc) sp" by blast
  with r have "valid_span (length nested_doc) (1, 3)" "valid_span (length nested_doc) (0, 4)"
    by simp_all
  moreover have "removal_order (remove_sections nested_doc) = [(1, 3), (0, 4)]"
    by (simp add: r removal_order_def)
  ultimately show ?thesis using r by blast
qed

section \<open>A target that is not found\<close>

text \<open>
  Claim C5, as stated, fails: in \<open>single_doc\<close> the first target is not found, and the
  run goes on to write a document that differs from the origin.
\<close>

theorem missing_target_still_writes:
  "find_sig ''bool UI::DetectEdgeHover('' single_doc 0 = None \<and>
   locate ''bool UI::DetectEdgeHover('' 100 single_doc = [] \<and>
   clean_ui single_doc = [''keep''] \<and> clean_ui single_doc \<noteq> single_doc"
  by (simp add: clean_ui_def remove_sections_def sections_for_def targets_def locate_def
      find_end_def single_doc_def excise_all_def removal_order_def del_slice_def)

text \<open>
  Claim C5, amended. If the boundary of a target is not found (its signature is on no
  line, or the balanced end is not reached inside the window), no span is scheduled for
  that target and the run goes on: it writes the document it would write without that
  target. The document written equals the origin when no span at all is scheduled.
\<close>

theorem missing_target_skipped:
  assumes "(sig, window) \<in> set targets"
    and "find_sig sig lines 0 = None \<or>
         (\<exists>i. find_sig sig lines 0 = Some i \<and> find_end lines i window = None)"
  shows "locate sig window lines = [] \<and>
         clean_ui lines = clean_with (remove1 (sig, window) targets) lines \<and>
         (remove_sections lines = [] \<longrightarrow> clean_ui lines = lines)"
proof -
  from assms(2) have e: "locate sig window lines = []" by (simp only: locate_empty_iff)
  have "clean_ui lines = clean_with (remove1 (sig, window) targets) lines"
    by (simp add: clean_ui_clean_with clean_with_def sections_for_remove1 [OF e])
  moreover have "remove_sections lines = [] \<longrightarrow> clean_ui lines = lines"
    by (simp add: clean_ui_def excise_all_Nil)
  ultimately show ?thesis using e by blast
qed

theorem missing_target_skipped_witness:
  "locate ''bool UI::DetectEdgeHover('' 100 single_doc = [] \<and>
   clean_ui single_doc = [''keep''] \<and>
   clean_with (remove1 (''bool UI::DetectEdgeHover('', 100) targets) single_doc = [''keep'']"
proof -
  have t: "(''bool UI::DetectEdgeHover('', 100) \<in> set targets" by (simp add: targets_def)
  have n: "find_sig ''bool UI::DetectEdgeHover('' single_doc 0 = None \<or>
      (\<exists>i. find_sig ''bool UI::DetectEdgeHover('' single_doc 0 = Some i \<and>
           find_end single_doc i 100 = None)"
    by (simp add: single_doc_def)
  have c: "clean_ui single_doc = [''keep'']"
    by (simp add: clean_ui_def remove_sections_def sections_for_def targets_def locate_def
      find_end_def single_doc_def excise_all_def removal_order_def del_slice_def)
  from missing_target_skipped [OF t n]
  have "locate ''bool UI::DetectEdgeHover('' 100 single_doc = []"
    "clean_ui single_doc =
       clean_with (remove1 (''bool UI::DetectEdgeHover('', 100) targets) single_doc" by blast+
  with c show ?thesis by simp
qed

section \<open>Only the first occurrence of a signature is searched\<close>

text \<open>
  Claim C10, as stated, fails: in \<open>repeated_doc\<close> the signature occurs again on line 1,
  inside the block of its first occurrence; the block that begins there (lines 1 and 2)
  is removed with the first one.
\<close>

theorem later_occurrence_removed:
  "has_sub ''void UI::UpdateCursor('' (repeated_doc ! 0) \<and>
   has_sub ''void UI::UpdateCursor('' (repeated_doc ! 1) \<and>
   find_end repeated_doc 1 100 = Some 3 \<and>
   remove_sections repeated_doc = [(0, 4)] \<and>
   clean_ui repeated_doc = [''keep'']"
  by (simp add: clean_ui_def remove_sections_def sections_for_def targets_def locate_def
      find_end_def repeated_doc_def excise_all_def removal_order_def del_slice_def)

text \<open>
  Claim C10, amended. For each target signature at most one span is scheduled, and it
  begins at the earliest line that contains the signature: the search for that signature
  never schedules a span beginning at a later occurrence. When the scheduled spans do
  not overlap, the output is the document without the lines the scheduled spans cover,
  so a later occurrence stays in the output, unaltered, if no scheduled span covers it.
\<close>

theorem later_occurrence_not_located:
  assumes "k < length lines" and "has_sub sig (lines ! k)"
    and "find_sig sig lines 0 \<noteq> Some k"
  shows "length (locate sig window lines) \<le> 1 \<and>
         (\<forall>sp \<in> set (locate sig window lines).
            fst sp < k \<and> find_sig sig lines 0 = Some (fst sp) \<and>
            (\<forall>j < fst sp. \<not> has_sub sig (lines ! j))) \<and>
         (non_overlapping (remove_sections lines) \<longrightarrow>
            clean_ui lines = nths lines {j. \<not> covered (remove_sections lines) j} \<and>
            (\<not> covered (remove_sections lines) k \<longrightarrow> lines ! k \<in> set (clean_ui lines)))"
proof -
  have a: "fst sp < k \<and> find_sig sig lines 0 = Some (fst sp) \<and>
      (\<forall>j < fst sp. \<not> has_sub sig (lines ! j))"
    if "sp \<in> set (locate sig window lines)" for sp
  proof -
    from that locate_cases [of sig window lines]
    obtain i e where sp: "sp = (i, e)" and f: "find_sig sig lines 0 = Some i" by auto
    from find_sig_Some [OF f] have fi: "\<forall>j < i. \<not> has_sub sig (lines ! j)" by simp
    with assms(2) have "\<not> k < i" by blast
    moreover from f assms(3) have "i \<noteq> k" by auto
    ultimately have "i < k" by simp
    with f fi sp show ?thesis by simp
  qed
  have b: "clean_ui lines = nths lines {j. \<not> covered (remove_sections lines) j} \<and>
      (\<not> covered (remove_sections lines) k \<longrightarrow> lines ! k \<in> set (clean_ui lines))"
    if n: "non_overlapping (remove_sections lines)"
  proof -
    have v: "\<forall>sp \<in> set (remove_sections lines). valid_span (length lines) sp"
      unfolding remove_sections_def by (blast dest: sections_for_valid)
    have c: "clean_ui lines = nths lines {j. \<not> covered (remove_sections lines) j}"
      unfolding clean_ui_def by (rule excise_all_char(1) [OF v n])
    have "lines ! k \<in> set (clean_ui lines)" if "\<not> covered (remove_sections lines) k"
      unfolding c set_nths using that assms(1) by blast
    with c show ?thesis by blast
  qed
  from a b length_locate [of sig window lines] show ?thesis by blast
qed

theorem later_occurrence_not_located_witness:
  "locate ''void UI::UpdateCursor('' 100 repeated_doc = [(0, 4)] \<and>
   find_sig ''void UI::UpdateCursor('' repeated_doc 0 = Some 0 \<and>
   clean_ui repeated_doc = nths repeated_doc {j. \<not> covered (remove_sections repeated_doc) j}"
proof -
  have k: "1 < length repeated_doc" by (simp add: repeated_doc_def)
  have h: "has_sub ''void UI::UpdateCursor('' (repeated_doc ! 1)"
    by (simp add: repeated_doc_def)
  have f: "find_sig ''void UI::UpdateCursor('' repeated_doc 0 = Some 0"
    by (simp add: repeated_doc_def)
  then have f': "find_sig ''void UI::UpdateCursor('' repeated_doc 0 \<noteq> Some 1" by simp
  have l: "locate ''void UI::UpdateCursor('' 100 repeated_doc = [(0, 4)]"
    by (simp add: locate_def find_end_def repeated_doc_def)
  have r: "remove_sections repeated_doc = [(0, 4)]"
    by (simp add: remove_sections_def sections_for_def targets_def locate_def
      find_end_def repeated_doc_def)
  then have n: "non_overlapping (remove_sections repeated_doc)" by simp
  from later_occurrence_not_located [OF k h f', of 100] n
  have "clean_ui repeated_doc =
      nths repeated_doc {j. \<not> covered (remove_sections repeated_doc) j}" by blast
  with l f show ?thesis by blast
qed

section \<open>The qualified substitution of one variable\<close>

lemma not_word_dot: "\<not> is_word CHR ''.''"
  by (simp add: is_word_def)

lemma ident_Cons: "ident v \<Longrightarrow> \<exists>c cs. v = c # cs \<and> is_word c \<and> list_all is_word cs"
  by (cases v) (auto simp: ident_def)

lemma ident_all_word: "ident v \<Longrightarrow> c \<in> set v \<Longrightarrow> is_word c"
  by (auto simp: ident_def list_all_iff)

lemma ident_last_word: "ident v \<Longrightarrow> word_at (first_char (rev v @ bef))"
proof -
  assume i: "ident v"
  then have "v \<noteq> []" by (simp add: ident_def)
  then obtain c cs where r: "rev v = c # cs" by (cases "rev v") auto
  then have "c \<in> set v" by (metis list.set_intros(1) set_rev)
  with i have "is_word c" by (rule ident_all_word)
  with r show ?thesis by (simp add: word_at_def)
qed

text \<open>The first lookbehind is subsumed by the second.\<close>

lemma matches_at_ident:
  assumes "ident var"
  shows "matches_at q var bef rest \<longleftrightarrow>
     first_char bef \<noteq> Some CHR ''.'' \<and> \<not> word_at (first_char bef) \<and> prefix var rest \<and>
     \<not> word_at (first_char (drop (length var) rest))"
proof -
  from ident_Cons [OF assms] obtain c cs where v: "var = c # cs" "is_word c" by blast
  have d: "prefix ''.'' bef \<longleftrightarrow> first_char bef = Some CHR ''.''"
    by (cases bef) auto
  have l: "prefix (rev (q @ ''.'')) bef \<Longrightarrow> prefix ''.'' bef"
    by (cases bef) auto
  have w: "prefix var rest \<Longrightarrow> word_at (first_char rest)"
    using v by (cases rest) (auto simp: word_at_def)
  show ?thesis
    unfolding matches_at_def boundary_def
    using d l w ident_last_word [OF assms, of bef] by blast
qed

lemma sub_go_Cons:
  assumes "ident var"
  shows "sub_go q var bef (c # cs) =
     (if matches_at q var bef (c # cs)
      then q @ ''.'' @ var @ sub_go q var (rev var @ bef) (drop (length var) (c # cs))
      else c # sub_go q var (c # bef) cs)"
  using assms by (simp add: ident_def)

declare sub_go.simps(2) [simp del]

text \<open>A character that is not a word character is copied.\<close>

lemma sub_go_non_word:
  assumes "ident var" "\<not> is_word c"
  shows "sub_go q var bef (c # cs) = c # sub_go q var (c # bef) cs"
proof -
  from ident_Cons [OF assms(1)] obtain d ds where v: "var = d # ds" "is_word d" by blast
  with assms(2) have "\<not> prefix var (c # cs)" by auto
  then have "\<not> matches_at q var bef (c # cs)" by (simp add: matches_at_ident [OF assms(1)])
  then show ?thesis by (simp only: sub_go_Cons [OF assms(1)] if_False)
qed

text \<open>Only the character just before the position matters.\<close>

lemma sub_go_context:
  assumes "ident var"
  shows "first_char bef = first_char bef' \<Longrightarrow> sub_go q var bef s = sub_go q var bef' s"
proof (induction "length s" arbitrary: s bef bef' rule: less_induct)
  case less
  show ?case
  proof (cases s)
    case Nil
    then show ?thesis by simp
  next
    case (Cons c cs)
    from assms have ne: "var \<noteq> []" by (simp add: ident_def)
    have m: "matches_at q var bef (c # cs) = matches_at q var bef' (c # cs)"
      by (simp only: matches_at_ident [OF assms] less.prems)
    show ?thesis
    proof (cases "matches_at q var bef (c # cs)")
      case True
      have f: "first_char (rev var @ bef) = first_char (rev var @ bef')"
        using ne by (cases "rev var") auto
      have "length (drop (length var) (c # cs)) < length s" using ne Cons by simp
      from less.hyps [OF this f]
      have "sub_go q var (rev var @ bef) (drop (length var) (c # cs)) =
            sub_go q var (rev var @ bef') (drop (length var) (c # cs))" .
      with True m show ?thesis by (simp only: Cons sub_go_Cons [OF assms] if_True)
    next
      case False
      have f: "first_char (c # bef) = first_char (c # bef')" by simp
      have "length cs < length s" using Cons by simp
      from less.hyps [OF this f]
      have "sub_go q var (c # bef) cs = sub_go q var (c # bef') cs" .
      with False m show ?thesis by (simp only: Cons sub_go_Cons [OF assms] if_False)
    qed
  qed
qed

text \<open>A character that is not a word character splits the scan in two.\<close>

lemma matches_at_before_non_word:
  assumes "ident var" "\<not> is_word c"
  shows "matches_at q var bef (xs @ c # ys) = matches_at q var bef xs"
proof -
  have c: "c \<notin> set var" using assms ident_all_word by blast
  have p: "prefix var (xs @ c # ys) \<longleftrightarrow> prefix var xs"
  proof
    assume "prefix var (xs @ c # ys)"
    then show "prefix var xs"
      unfolding prefix_append
    proof
      assume "prefix var xs" then show ?thesis .
    next
      assume "\<exists>us. var = xs @ us \<and> prefix us (c # ys)"
      then obtain us where us: "var = xs @ us" "prefix us (c # ys)" by blast
      from us(2) have "us = [] \<or> c \<in> set us" by (cases us) auto
      with us(1) c show ?thesis by auto
    qed
  next
    assume "prefix var xs" then show "prefix var (xs @ c # ys)" by (rule prefix_prefix)
  qed
  have d: "word_at (first_char (drop (length var) (xs @ c # ys))) =
           word_at (first_char (drop (length var) xs))" if "prefix var xs"
  proof -
    from that have le: "length var \<le> length xs" by (rule prefix_length_le)
    show ?thesis
    proof (cases "length var = length xs")
      case True
      with assms(2) show ?thesis by (simp add: word_at_def)
    next
      case False
      with le have "length var < length xs" by simp
      then obtain z zs where "drop (length var) xs = z # zs"
        by (cases "drop (length var) xs") auto
      with le show ?thesis by simp
    qed
  qed
  show ?thesis unfolding matches_at_ident [OF assms(1)] using p d by blast
qed

lemma sub_go_split:
  assumes "ident var" "\<not> is_word c"
  shows "sub_go q var bef (xs @ c # ys) =
         sub_go q var bef xs @ c # sub_go q var (c # rev xs @ bef) ys"
proof (induction "length xs" arbitrary: xs bef rule: less_induct)
  case less
  show ?case
  proof (cases xs)
    case Nil
    then show ?thesis using sub_go_non_word [OF assms] by simp
  next
    case (Cons x xs')
    from assms(1) have ne: "var \<noteq> []" by (simp add: ident_def)
    have m: "matches_at q var bef ((x # xs') @ c # ys) = matches_at q var bef (x # xs')"
      by (rule matches_at_before_non_word [OF assms])
    show ?thesis
    proof (cases "matches_at q var bef (x # xs')")
      case True
      then have "prefix var (x # xs')" by (simp add: matches_at_ident [OF assms(1)])
      then obtain rem where rem: "x # xs' = var @ rem" by (auto simp: prefix_def)
      have dr: "drop (length var) (x # xs') = rem"
        "drop (length var) (x # xs' @ c # ys) = rem @ c # ys"
      proof -
        show "drop (length var) (x # xs') = rem" by (simp only: rem) simp
        have e: "x # xs' @ c # ys = var @ rem @ c # ys"
          using rem by (metis append_Cons append_assoc)
        show "drop (length var) (x # xs' @ c # ys) = rem @ c # ys" unfolding e by simp
      qed
      have "length rem < length xs" using ne rem Cons
        by (metis length_append length_greater_0_conv less_add_same_cancel2 add.commute)
      from less.hyps [OF this]
      have IH: "sub_go q var (rev var @ bef) (rem @ c # ys) =
        sub_go q var (rev var @ bef) rem @ c # sub_go q var (c # rev rem @ rev var @ bef) ys" .
      have rv: "rev (x # xs') = rev rem @ rev var" by (simp only: rem rev_append)
      have "sub_go q var bef ((x # xs') @ c # ys) =
          q @ ''.'' @ var @ sub_go q var (rev var @ bef) (rem @ c # ys)"
        using True m by (simp only: append_Cons sub_go_Cons [OF assms(1)] if_True dr(2))
      also have "\<dots> = (q @ ''.'' @ var @ sub_go q var (rev var @ bef) rem) @
          c # sub_go q var (c # rev (x # xs') @ bef) ys"
        by (simp only: IH rv append_assoc)
      also have "q @ ''.'' @ var @ sub_go q var (rev var @ bef) rem = sub_go q var bef (x # xs')"
        using True by (simp only: sub_go_Cons [OF assms(1)] if_True dr(1))
      finally show ?thesis by (simp only: Cons)
    next
      case False
      have "length xs' < length xs" using Cons by simp
      from less.hyps [OF this]
      have IH: "sub_go q var (x # bef) (xs' @ c # ys) =
          sub_go q var (x # bef) xs' @ c # sub_go q var (c # rev xs' @ x # bef) ys" .
      have "sub_go q var bef ((x # xs') @ c # ys) = x # sub_go q var (x # bef) (xs' @ c # ys)"
        using False m by (simp only: append_Cons sub_go_Cons [OF assms(1)] if_False)
      also have "\<dots> = (x # sub_go q var (x # bef) xs') @
          c # sub_go q var (c # rev (x # xs') @ bef) ys"
        by (simp add: IH)
      also have "x # sub_go q var (x # bef) xs' = sub_go q var bef (x # xs')"
        using False by (simp only: sub_go_Cons [OF assms(1)] if_False)
      finally show ?thesis by (simp only: Cons)
    qed
  qed
qed

text \<open>Inside a run of word characters that follows a word character or a dot, nothing matches.\<close>

lemma sub_go_word_run:
  assumes "ident var"
  shows "list_all is_word w \<Longrightarrow> word_at (first_char bef) \<or> first_char bef = Some CHR ''.'' \<Longrightarrow>
         sub_go q var bef (w @ rest) = w @ sub_go q var (rev w @ bef) rest"
proof (induction w arbitrary: bef)
  case Nil
  show ?case by simp
next
  case (Cons c w)
  from Cons.prems(2) have "\<not> matches_at q var bef (c # w @ rest)"
    by (auto simp: matches_at_ident [OF assms])
  then have "sub_go q var bef ((c # w) @ rest) = c # sub_go q var (c # bef) (w @ rest)"
    by (simp add: sub_go_Cons [OF assms])
  also have "sub_go q var (c # bef) (w @ rest) = w @ sub_go q var (rev w @ c # bef) rest"
    using Cons.prems(1) by (intro Cons.IH) (simp_all add: word_at_def)
  finally show ?case by simp
qed

text \<open>Behind a word, the scan of the rest does not depend on what came before.\<close>

lemma sub_go_after_word:
  assumes "ident var" "post = [] \<or> \<not> is_word (hd post)"
  shows "sub_go q var bef post = sub_go q var [] post"
proof (cases post)
  case Nil
  then show ?thesis by simp
next
  case (Cons c cs)
  with assms(2) have c: "\<not> is_word c" by simp
  have "sub_go q var (c # bef) cs = sub_go q var [c] cs"
    by (rule sub_go_context [OF assms(1)]) simp
  then show ?thesis
    by (simp only: Cons sub_go_non_word [OF assms(1) c])
qed

lemma sub_go_match:
  assumes "ident var" "first_char bef \<noteq> Some CHR ''.''" "\<not> word_at (first_char bef)"
    and "post = [] \<or> \<not> is_word (hd post)"
  shows "sub_go q var bef (var @ post) = q @ ''.'' @ var @ sub_go q var [] post"
proof -
  from ident_Cons [OF assms(1)] obtain z zs where vp: "var @ post = z # zs" by auto
  have "\<not> word_at (first_char post)" using assms(4) by (cases post) (auto simp: word_at_def)
  then have "matches_at q var bef (var @ post)"
    using assms(2,3) by (simp add: matches_at_ident [OF assms(1)])
  then have m: "matches_at q var bef (z # zs)" by (simp only: vp)
  have d: "drop (length var) (z # zs) = post" unfolding vp [symmetric] by simp
  have "sub_go q var bef (z # zs) = q @ ''.'' @ var @ sub_go q var (rev var @ bef) post"
    using m by (simp only: sub_go_Cons [OF assms(1)] if_True d)
  also have "sub_go q var (rev var @ bef) post = sub_go q var [] post"
    by (rule sub_go_after_word [OF assms(1,4)])
  finally show ?thesis by (simp only: vp)
qed

lemma sub_var_occurrence:
  assumes "ident var"
    and "pre = [] \<or> (\<not> is_word (last pre) \<and> last pre \<noteq> CHR ''.'')"
    and "post = [] \<or> \<not> is_word (hd post)"
  shows "sub_var q var (pre @ var @ post) =
         sub_var q var pre @ q @ ''.'' @ var @ sub_var q var post"
proof (cases "pre = []")
  case True
  then show ?thesis
    using sub_go_match [OF assms(1) _ _ assms(3), of "[]" q]
    by (simp add: sub_var_def word_at_def)
next
  case False
  then obtain p c where pre: "pre = p @ [c]" by (metis rev_exhaust)
  with assms(2) have c: "\<not> is_word c" "c \<noteq> CHR ''.''" by simp_all
  have "sub_go q var [] (p @ c # var @ post) =
      sub_go q var [] p @ c # sub_go q var (c # rev p @ []) (var @ post)"
    by (rule sub_go_split [OF assms(1) c(1)])
  also have "sub_go q var (c # rev p @ []) (var @ post) =
      q @ ''.'' @ var @ sub_go q var [] post"
    using c by (intro sub_go_match [OF assms(1) _ _ assms(3)]) (simp_all add: word_at_def)
  finally have a: "sub_go q var [] (p @ c # var @ post) =
      sub_go q var [] p @ c # q @ ''.'' @ var @ sub_go q var [] post" .
  have b: "sub_go q var [] (p @ c # []) = sub_go q var [] p @ c # sub_go q var (c # rev p @ []) []"
    by (rule sub_go_split [OF assms(1) c(1)])
  show ?thesis using a b by (simp add: sub_var_def pre)
qed

section \<open>Literal replacement\<close>

lemma has_sub_iff: "has_sub m s \<longleftrightarrow> (\<exists>pre post. s = pre @ m @ post)"
proof (induction s)
  case Nil
  show ?case by auto
next
  case (Cons c cs)
  show ?case
  proof
    assume "has_sub m (c # cs)"
    then consider "prefix m (c # cs)" | "has_sub m cs" by auto
    then show "\<exists>pre post. c # cs = pre @ m @ post"
    proof cases
      case 1
      then obtain post where "c # cs = m @ post" by (auto simp: prefix_def)
      then have "c # cs = [] @ m @ post" by simp
      then show ?thesis by blast
    next
      case 2
      with Cons obtain pre post where "cs = pre @ m @ post" by blast
      then have "c # cs = (c # pre) @ m @ post" by simp
      then show ?thesis by blast
    qed
  next
    assume "\<exists>pre post. c # cs = pre @ m @ post"
    then obtain pre post where e: "c # cs = pre @ m @ post" by blast
    show "has_sub m (c # cs)"
    proof (cases pre)
      case Nil
      with e have "prefix m (c # cs)" by (metis append_Nil prefixI)
      then show ?thesis by simp
    next
      case (Cons p pre')
      with e have "cs = pre' @ m @ post" by simp
      with Cons.IH have "has_sub m cs" by blast
      then show ?thesis by simp
    qed
  qed
qed



lemma replace_from_Cons:
  "old \<noteq> [] \<Longrightarrow> replace_from old new (c # cs) =
     (if prefix old (c # cs) then new @ replace_from old new (drop (length old) (c # cs))
      else c # replace_from old new cs)"
  by simp

declare replace_from.simps(2) [simp del]

lemma replace_from_prefix:
  assumes "old \<noteq> []"
  shows "replace_from old new (old @ t) = new @ replace_from old new t"
proof -
  from assms obtain z zs where e: "old @ t = z # zs" by (cases old) auto
  have p: "prefix old (z # zs)" unfolding e [symmetric] by simp
  have d: "drop (length old) (z # zs) = t" unfolding e [symmetric] by simp
  show ?thesis unfolding e by (simp only: replace_from_Cons [OF assms] p if_True d)
qed



lemma replace_from_absent:
  assumes "old \<noteq> []"
  shows "\<not> has_sub old s \<Longrightarrow> replace_from old new s = s"
  by (induction s) (auto simp: replace_from_Cons [OF assms])

section \<open>Replacement keeps the occurrences of a string that is apart from the rule\<close>







section \<open>The adaptation of the render block\<close>










section \<open>One pass next to text it does not touch\<close>

lemma sub_var_Nil: "sub_var q v [] = []"
  by (simp add: sub_var_def)

lemma sub_var_snoc_non_word:
  assumes "ident v" "\<not> is_word c"
  shows "sub_var q v (p @ [c]) = sub_var q v p @ [c]"
  using sub_go_split [OF assms, of q "[]" p "[]"] by (simp add: sub_var_def)

lemma clean_end_sub_var:
  assumes "ident v" "clean_end a"
  shows "clean_end (sub_var q v a)"
proof (cases "a = []")
  case True
  then show ?thesis by (simp add: clean_end_def sub_var_Nil)
next
  case False
  then obtain p c where a: "a = p @ [c]" by (metis rev_exhaust)
  with assms(2) have c: "\<not> is_word c" "c \<noteq> CHR ''.''" by (simp_all add: clean_end_def)
  show ?thesis
    unfolding a sub_var_snoc_non_word [OF assms(1) c(1)] using c by (simp add: clean_end_def)
qed

lemma clean_start_sub_var:
  assumes "ident v" "clean_start b"
  shows "clean_start (sub_var q v b)"
proof (cases b)
  case Nil
  then show ?thesis by (simp add: clean_start_def sub_var_Nil)
next
  case (Cons c cs)
  with assms(2) have c: "\<not> is_word c" by (simp add: clean_start_def)
  show ?thesis
    unfolding Cons sub_var_def sub_go_non_word [OF assms(1) c] using c
    by (simp add: clean_start_def)
qed

text \<open>A run of word characters that is not the name itself is copied.\<close>

lemma no_match_other_word:
  assumes "ident v" "list_all is_word w" "v \<noteq> w" "clean_start b"
  shows "\<not> (prefix v (w @ b) \<and> \<not> word_at (first_char (drop (length v) (w @ b))))"
proof
  assume a: "prefix v (w @ b) \<and> \<not> word_at (first_char (drop (length v) (w @ b)))"
  then have p: "prefix v (w @ b)"
    and n: "\<not> word_at (first_char (drop (length v) (w @ b)))" by blast+
  from p have "prefix v w \<or> (\<exists>r. r \<noteq> [] \<and> v = w @ r \<and> prefix r b)"
    unfolding prefix_append by auto
  then show False
  proof
    assume pv: "prefix v w"
    then obtain t where t: "w = v @ t" by (auto simp: prefix_def)
    with assms(3) have "t \<noteq> []" by auto
    then obtain x xs where x: "t = x # xs" by (cases t) auto
    with t assms(2) have "is_word x" by simp
    moreover have "drop (length v) (w @ b) = x # xs @ b" by (simp add: t x)
    ultimately show False using n by (simp add: word_at_def)
  next
    assume "\<exists>r. r \<noteq> [] \<and> v = w @ r \<and> prefix r b"
    then obtain r where r: "r \<noteq> []" "v = w @ r" "prefix r b" by blast
    then obtain x xs where x: "r = x # xs" by (cases r) auto
    with r(3) obtain bs where b: "b = x # bs" by (cases b) auto
    from r(2) x assms(1) have "is_word x" by (auto dest: ident_all_word)
    with b assms(4) show False by (simp add: clean_start_def)
  qed
qed

lemma sub_go_other_word:
  assumes "ident v" "list_all is_word w" "w \<noteq> []" "v \<noteq> w" "clean_start b"
    and "\<not> word_at (first_char bef)"
  shows "sub_go q v bef (w @ b) = w @ sub_go q v [] b"
proof -
  from assms(3) obtain c w' where w: "w = c # w'" by (cases w) auto
  with assms(2) have c: "is_word c" and w': "list_all is_word w'" by simp_all
  from no_match_other_word [OF assms(1,2,4,5)]
  have "\<not> matches_at q v bef (w @ b)" by (simp add: matches_at_ident [OF assms(1)])
  then have "\<not> matches_at q v bef (c # w' @ b)" by (simp add: w)
  then have "sub_go q v bef (c # w' @ b) = c # sub_go q v (c # bef) (w' @ b)"
    by (simp only: sub_go_Cons [OF assms(1)] if_False)
  also have "sub_go q v (c # bef) (w' @ b) = w' @ sub_go q v (rev w' @ c # bef) b"
    using c by (intro sub_go_word_run [OF assms(1) w']) (simp add: word_at_def)
  also have "sub_go q v (rev w' @ c # bef) b = sub_go q v [] b"
    using assms(5) by (intro sub_go_after_word [OF assms(1)]) (simp add: clean_start_def)
  finally show ?thesis by (simp add: w)
qed

lemma sub_var_other_word:
  assumes "ident v" "list_all is_word w" "w \<noteq> []" "v \<noteq> w" "clean_end a" "clean_start b"
  shows "sub_var q v (a @ w @ b) = sub_var q v a @ w @ sub_var q v b"
proof (cases "a = []")
  case True
  then show ?thesis
    using sub_go_other_word [OF assms(1-4,6), of "[]" q]
    by (simp add: sub_var_def word_at_def)
next
  case False
  then obtain p c where a: "a = p @ [c]" by (metis rev_exhaust)
  with assms(5) have c: "\<not> is_word c" by (simp add: clean_end_def)
  have "sub_go q v [] (p @ c # w @ b) =
      sub_go q v [] p @ c # sub_go q v (c # rev p @ []) (w @ b)"
    by (rule sub_go_split [OF assms(1) c])
  also have "sub_go q v (c # rev p @ []) (w @ b) = w @ sub_go q v [] b"
    using c by (intro sub_go_other_word [OF assms(1-4,6)]) (simp add: word_at_def)
  finally have "sub_var q v (a @ w @ b) = (sub_var q v p @ [c]) @ w @ sub_var q v b"
    by (simp add: sub_var_def a)
  then show ?thesis by (simp only: a sub_var_snoc_non_word [OF assms(1) c])
qed

text \<open>A run of word characters behind a dot is copied.\<close>

lemma sub_var_dotted_run:
  assumes "ident v" "list_all is_word w" "clean_start b"
  shows "sub_var q v (a @ ''.'' @ w @ b) = sub_var q v a @ ''.'' @ w @ sub_var q v b"
proof -
  have "sub_go q v [] (a @ CHR ''.'' # w @ b) =
      sub_go q v [] a @ CHR ''.'' # sub_go q v (CHR ''.'' # rev a @ []) (w @ b)"
    by (rule sub_go_split [OF assms(1) not_word_dot])
  also have "sub_go q v (CHR ''.'' # rev a @ []) (w @ b) =
      w @ sub_go q v (rev w @ CHR ''.'' # rev a @ []) b"
    by (intro sub_go_word_run [OF assms(1,2)]) simp
  also have "sub_go q v (rev w @ CHR ''.'' # rev a @ []) b = sub_go q v [] b"
    using assms(3) by (intro sub_go_after_word [OF assms(1)]) (simp add: clean_start_def)
  finally show ?thesis by (simp add: sub_var_def)
qed

section \<open>The loop over the names\<close>

lemma passes_Nil: "passes [] c = c"
  by (simp add: passes_def)

lemma passes_Cons: "passes (v # vs) c = passes vs (sub_var ''m_canvasPanel'' v c)"
  by (simp add: passes_def)

lemma passes_append: "passes (vs @ ws) c = passes ws (passes vs c)"
  by (simp add: passes_def)

lemma passes_empty: "passes vs [] = []"
  by (induction vs) (simp_all add: passes_Nil passes_Cons sub_var_Nil)

lemma clean_end_passes:
  "list_all ident vs \<Longrightarrow> clean_end a \<Longrightarrow> clean_end (passes vs a)"
  by (induction vs arbitrary: a) (simp_all add: passes_Nil passes_Cons clean_end_sub_var)

lemma clean_start_passes:
  "list_all ident vs \<Longrightarrow> clean_start b \<Longrightarrow> clean_start (passes vs b)"
  by (induction vs arbitrary: b) (simp_all add: passes_Nil passes_Cons clean_start_sub_var)

lemma passes_other_word:
  assumes "list_all is_word w" "w \<noteq> []"
  shows "list_all ident vs \<Longrightarrow> w \<notin> set vs \<Longrightarrow> clean_end a \<Longrightarrow> clean_start b \<Longrightarrow>
         passes vs (a @ w @ b) = passes vs a @ w @ passes vs b"
proof (induction vs arbitrary: a b)
  case Nil
  show ?case by (simp add: passes_Nil)
next
  case (Cons v vs)
  from Cons.prems have v: "ident v" "v \<noteq> w" and vs: "list_all ident vs" "w \<notin> set vs"
    by auto
  have "sub_var ''m_canvasPanel'' v (a @ w @ b) =
      sub_var ''m_canvasPanel'' v a @ w @ sub_var ''m_canvasPanel'' v b"
    by (rule sub_var_other_word [OF v(1) assms v(2) Cons.prems(3,4)])
  moreover have "clean_end (sub_var ''m_canvasPanel'' v a)"
    by (rule clean_end_sub_var [OF v(1) Cons.prems(3)])
  moreover have "clean_start (sub_var ''m_canvasPanel'' v b)"
    by (rule clean_start_sub_var [OF v(1) Cons.prems(4)])
  ultimately show ?case
    by (simp only: passes_Cons Cons.IH [OF vs])
qed

lemma passes_dotted_run:
  assumes "list_all is_word w"
  shows "list_all ident vs \<Longrightarrow> clean_start b \<Longrightarrow>
         passes vs (a @ ''.'' @ w @ b) = passes vs a @ ''.'' @ w @ passes vs b"
proof (induction vs arbitrary: a b)
  case Nil
  show ?case by (simp add: passes_Nil)
next
  case (Cons v vs)
  from Cons.prems have v: "ident v" and vs: "list_all ident vs" by auto
  have "sub_var ''m_canvasPanel'' v (a @ ''.'' @ w @ b) =
      sub_var ''m_canvasPanel'' v a @ ''.'' @ w @ sub_var ''m_canvasPanel'' v b"
    by (rule sub_var_dotted_run [OF v assms Cons.prems(2)])
  moreover have "clean_start (sub_var ''m_canvasPanel'' v b)"
    by (rule clean_start_sub_var [OF v Cons.prems(2)])
  ultimately show ?case
    by (simp only: passes_Cons Cons.IH [OF vs])
qed

lemma moved_vars_ident: "list_all ident moved_vars"
  by (simp add: moved_vars_def ident_def is_word_def)

lemma moved_vars_distinct: "distinct moved_vars"
  by (simp add: moved_vars_def)

lemma qualifier_not_moved: "''m_canvasPanel'' \<notin> set moved_vars"
  by (simp add: moved_vars_def)

lemma qualifier_word: "list_all is_word ''m_canvasPanel''"
  by (simp add: is_word_def)

text \<open>The loop qualifies a whole-word occurrence of one of its names.\<close>

lemma passes_occurrence:
  assumes "var \<in> set moved_vars" "clean_end a" "clean_start b"
  shows "passes moved_vars (a @ var @ b) =
         passes moved_vars a @ ''m_canvasPanel.'' @ var @ passes moved_vars b"
proof -
  let ?q = "''m_canvasPanel''"
  from assms(1) obtain vs1 vs2 where m: "moved_vars = vs1 @ var # vs2"
    by (auto dest: split_list)
  from moved_vars_distinct have "distinct (vs1 @ var # vs2)" by (simp only: m)
  then have n1: "var \<notin> set vs1" and n2: "var \<notin> set vs2" by auto
  from moved_vars_ident have "list_all ident (vs1 @ var # vs2)" by (simp only: m)
  then have i1: "list_all ident vs1" and iv: "ident var" and i2: "list_all ident vs2"
    by auto
  from qualifier_not_moved [unfolded m] have q2: "?q \<notin> set vs2" by auto
  from iv have vw: "list_all is_word var" "var \<noteq> []" by (simp_all add: ident_def)
  define a1 where "a1 = passes vs1 a"
  define b1 where "b1 = passes vs1 b"
  define a2 where "a2 = sub_var ?q var a1"
  define b2 where "b2 = sub_var ?q var b1"
  have ca1: "clean_end a1" unfolding a1_def by (rule clean_end_passes [OF i1 assms(2)])
  have cb1: "clean_start b1" unfolding b1_def by (rule clean_start_passes [OF i1 assms(3)])
  have ca2: "clean_end a2" unfolding a2_def by (rule clean_end_sub_var [OF iv ca1])
  have cb2: "clean_start b2" unfolding b2_def by (rule clean_start_sub_var [OF iv cb1])
  have s1: "passes vs1 (a @ var @ b) = a1 @ var @ b1"
    unfolding a1_def b1_def by (rule passes_other_word [OF vw i1 n1 assms(2,3)])
  have "sub_var ?q var (a1 @ var @ b1) = a2 @ ?q @ ''.'' @ var @ b2"
    unfolding a2_def b2_def
    using ca1 cb1 by (intro sub_var_occurrence [OF iv]) (simp_all add: clean_end_def clean_start_def)
  then have s2: "sub_var ?q var (a1 @ var @ b1) = (a2 @ ?q) @ ''.'' @ var @ b2" by simp
  have s3: "passes vs2 ((a2 @ ?q) @ ''.'' @ var @ b2) =
      passes vs2 (a2 @ ?q) @ ''.'' @ var @ passes vs2 b2"
    by (rule passes_dotted_run [OF vw(1) i2 cb2])
  have "passes vs2 (a2 @ ?q @ []) = passes vs2 a2 @ ?q @ passes vs2 []"
    by (rule passes_other_word [OF qualifier_word _ i2 q2 ca2]) (simp_all add: clean_start_def)
  then have s4: "passes vs2 (a2 @ ?q) = passes vs2 a2 @ ?q" by (simp add: passes_empty)
  have "passes moved_vars (a @ var @ b) = passes vs2 (sub_var ?q var (passes vs1 (a @ var @ b)))"
    by (simp add: m passes_append passes_Cons)
  also have "\<dots> = (passes vs2 a2 @ ?q) @ ''.'' @ var @ passes vs2 b2"
    by (simp only: s1 s2 s3 s4)
  also have "passes vs2 a2 = passes moved_vars a"
    by (simp add: m passes_append passes_Cons a2_def a1_def)
  also have "passes vs2 b2 = passes moved_vars b"
    by (simp add: m passes_append passes_Cons b2_def b1_def)
  finally show ?thesis by simp
qed

section \<open>The scope replacement next to text it does not touch\<close>

lemma replace_from_append:
  assumes "old \<noteq> []"
  shows "(\<And>k. k < length xs \<Longrightarrow> prefix old (drop k xs @ ys) \<Longrightarrow> prefix old (drop k xs)) \<Longrightarrow>
         replace_from old new (xs @ ys) = replace_from old new xs @ replace_from old new ys"
proof (induction "length xs" arbitrary: xs rule: less_induct)
  case less
  show ?case
  proof (cases xs)
    case Nil
    then show ?thesis by simp
  next
    case (Cons x xs')
    show ?thesis
    proof (cases "prefix old (x # xs')")
      case True
      then obtain t where t: "x # xs' = old @ t" by (auto simp: prefix_def)
      have lt: "length t < length xs" using assms t Cons
        by (metis length_append length_greater_0_conv less_add_same_cancel2 add.commute)
      have "prefix old (drop k t)" if "k < length t" "prefix old (drop k t @ ys)" for k
      proof -
        have d: "drop (length old + k) xs = drop k t" unfolding Cons t by simp
        have "length old + k < length xs" using that(1) unfolding Cons t by simp
        from less.prems [OF this] that(2) show ?thesis by (simp only: d)
      qed
      with less.hyps [OF lt]
      have IH: "replace_from old new (t @ ys) =
          replace_from old new t @ replace_from old new ys" by blast
      have "replace_from old new (xs @ ys) = new @ replace_from old new (t @ ys)"
        unfolding Cons t append_assoc by (rule replace_from_prefix [OF assms])
      moreover have "replace_from old new xs = new @ replace_from old new t"
        unfolding Cons t by (rule replace_from_prefix [OF assms])
      ultimately show ?thesis by (simp add: IH)
    next
      case False
      have "\<not> prefix old (x # xs' @ ys)"
        using less.prems [of 0] False Cons by auto
      then have a: "replace_from old new (xs @ ys) = x # replace_from old new (xs' @ ys)"
        by (simp add: Cons replace_from_Cons [OF assms])
      have b: "replace_from old new xs = x # replace_from old new xs'"
        using False by (simp add: Cons replace_from_Cons [OF assms])
      have "prefix old (drop k xs')" if "k < length xs'" "prefix old (drop k xs' @ ys)" for k
        using less.prems [of "Suc k"] that Cons by simp
      moreover have "length xs' < length xs" using Cons by simp
      ultimately have "replace_from old new (xs' @ ys) =
          replace_from old new xs' @ replace_from old new ys"
        using less.hyps by blast
      with a b show ?thesis by simp
    qed
  qed
qed

lemma replace_from_last:
  assumes "old \<noteq> []" "new \<noteq> []" "last new = last old"
  shows "s \<noteq> [] \<Longrightarrow>
         replace_from old new s \<noteq> [] \<and> last (replace_from old new s) = last s"
proof (induction "length s" arbitrary: s rule: less_induct)
  case less
  from less.prems obtain c cs where s: "s = c # cs" by (cases s) auto
  show ?case
  proof (cases "prefix old (c # cs)")
    case True
    then obtain t where t: "c # cs = old @ t" by (auto simp: prefix_def)
    have r: "replace_from old new s = new @ replace_from old new t"
      unfolding s t by (rule replace_from_prefix [OF assms(1)])
    show ?thesis
    proof (cases "t = []")
      case True
      then show ?thesis using r assms s t by simp
    next
      case False
      have "length t < length s" using assms(1) t s
        by (metis length_append length_greater_0_conv less_add_same_cancel2 add.commute)
      from less.hyps [OF this False] show ?thesis using r s t False by simp
    qed
  next
    case False
    then have r: "replace_from old new s = c # replace_from old new cs"
      by (simp add: s replace_from_Cons [OF assms(1)])
    show ?thesis
    proof (cases "cs = []")
      case True
      then show ?thesis using r s by simp
    next
      case False
      have "length cs < length s" using s by simp
      from less.hyps [OF this False] show ?thesis using r s False by simp
    qed
  qed
qed

lemma straddle:
  "prefix t (u @ rest) \<Longrightarrow> \<not> prefix t u \<Longrightarrow> \<exists>r. r \<noteq> [] \<and> t = u @ r \<and> prefix r rest"
  unfolding prefix_append by auto

lemma tool_splits:
  "''Tool::'' = u @ r \<Longrightarrow>
     (u = [] \<and> r = ''Tool::'') \<or> (u = ''T'' \<and> r = ''ool::'') \<or> (u = ''To'' \<and> r = ''ol::'') \<or>
     (u = ''Too'' \<and> r = ''l::'') \<or> (u = ''Tool'' \<and> r = ''::'') \<or> (u = ''Tool:'' \<and> r = '':'') \<or>
     (u = ''Tool::'' \<and> r = [])"
  by (auto simp: Cons_eq_append_conv)

lemma scope_replace:
  "str_replace ''Tool::'' ''CanvasPanel::Tool::'' s =
   replace_from ''Tool::'' ''CanvasPanel::Tool::'' s"
  by (simp add: str_replace_def)

lemma clean_end_scope:
  assumes "clean_end a"
  shows "clean_end (str_replace ''Tool::'' ''CanvasPanel::Tool::'' a)"
proof (cases "a = []")
  case True
  then show ?thesis by (simp add: scope_replace clean_end_def)
next
  case False
  from replace_from_last [of "''Tool::''" "''CanvasPanel::Tool::''", OF _ _ _ False]
  show ?thesis using assms False by (simp add: scope_replace clean_end_def)
qed

lemma clean_start_scope:
  assumes "clean_start b"
  shows "clean_start (str_replace ''Tool::'' ''CanvasPanel::Tool::'' b)"
proof (cases b)
  case Nil
  then show ?thesis by (simp add: scope_replace clean_start_def)
next
  case (Cons c cs)
  with assms have c: "\<not> is_word c" by (simp add: clean_start_def)
  then have "c \<noteq> CHR ''T''" by (auto simp: is_word_def)
  then show ?thesis using c by (simp add: Cons scope_replace replace_from_Cons clean_start_def)
qed

text \<open>In front of a word, behind text that does not end in a word character.\<close>

lemma scope_before_word:
  assumes "clean_end a" "rest \<noteq> []" "is_word (hd rest)"
  shows "replace_from ''Tool::'' new (a @ rest) =
         replace_from ''Tool::'' new a @ replace_from ''Tool::'' new rest"
proof (rule replace_from_append)
  show "''Tool::'' \<noteq> []" by simp
next
  fix k assume k: "k < length a" and p: "prefix ''Tool::'' (drop k a @ rest)"
  show "prefix ''Tool::'' (drop k a)"
  proof (rule ccontr)
    assume "\<not> prefix ''Tool::'' (drop k a)"
    define u where "u = drop k a"
    from p have pu: "prefix ''Tool::'' (u @ rest)" unfolding u_def .
    from \<open>\<not> prefix ''Tool::'' (drop k a)\<close> have npu: "\<not> prefix ''Tool::'' u"
      unfolding u_def .
    from straddle [OF pu npu] obtain r where r: "r \<noteq> []" "''Tool::'' = u @ r"
      "prefix r rest" by blast
    from k have u: "u \<noteq> []" "last u = last a" by (simp_all add: u_def)
    from k assms(1) have "\<not> is_word (last a)" by (auto simp: clean_end_def)
    with u have nw: "\<not> is_word (last u)" by simp
    from r(1,3) assms(2) have "hd r = hd rest" by (cases r; cases rest) auto
    with assms(3) have w: "is_word (hd r)" by simp
    from tool_splits [OF r(2)] u(1) r(1) nw w show False
      by (auto simp: is_word_def)
  qed
qed

text \<open>A word that is not a name ending in \<^verbatim>\<open>Tool\<close> directly followed by \<^verbatim>\<open>::\<close>.\<close>

lemma scope_word:
  assumes "list_all is_word w" "clean_start b"
    and "\<not> (suffix ''Tool'' w \<and> prefix ''::'' b)"
  shows "replace_from ''Tool::'' new (w @ b) = w @ replace_from ''Tool::'' new b"
proof -
  have "replace_from ''Tool::'' new (w @ b) =
      replace_from ''Tool::'' new w @ replace_from ''Tool::'' new b"
  proof (rule replace_from_append)
    show "''Tool::'' \<noteq> []" by simp
  next
    fix k assume k: "k < length w" and p: "prefix ''Tool::'' (drop k w @ b)"
    show "prefix ''Tool::'' (drop k w)"
    proof (rule ccontr)
      assume "\<not> prefix ''Tool::'' (drop k w)"
      from straddle [OF p this] obtain r where r: "r \<noteq> []" "''Tool::'' = drop k w @ r"
        "prefix r b" by blast
      from k have u: "drop k w \<noteq> []" by simp
      have aw: "list_all is_word (drop k w)"
        using assms(1) by (auto simp: list_all_iff dest: in_set_dropD)
      from r(1,3) obtain x xs bs where x: "r = x # xs" "b = x # bs"
        by (cases r; cases b) auto
      with assms(2) have nw: "\<not> is_word (hd r)" by (simp add: clean_start_def)
      have sf: "suffix (drop k w) w" by (rule suffix_drop)
      from tool_splits [OF r(2)] u r(1) nw aw
      have "drop k w = ''Tool'' \<and> r = ''::''" by (auto simp: is_word_def)
      with sf r(3) assms(3) show False by simp
    qed
  qed
  moreover have "\<not> has_sub ''Tool::'' w"
  proof
    assume "has_sub ''Tool::'' w"
    then obtain p q where "w = p @ ''Tool::'' @ q" unfolding has_sub_iff by blast
    then have "CHR '':'' \<in> set w" by simp
    with assms(1) have "is_word CHR '':''" by (auto simp: list_all_iff)
    then show False by (simp add: is_word_def)
  qed
  then have "replace_from ''Tool::'' new w = w" by (intro replace_from_absent) simp
  ultimately show ?thesis by simp
qed

text \<open>Across a dot.\<close>

lemma scope_dot:
  "replace_from ''Tool::'' new (a @ ''.'' @ rest) =
   replace_from ''Tool::'' new a @ ''.'' @ replace_from ''Tool::'' new rest"
proof -
  have "replace_from ''Tool::'' new (a @ CHR ''.'' # rest) =
      replace_from ''Tool::'' new a @ replace_from ''Tool::'' new (CHR ''.'' # rest)"
  proof (rule replace_from_append)
    show "''Tool::'' \<noteq> []" by simp
  next
    fix k assume k: "k < length a" and p: "prefix ''Tool::'' (drop k a @ CHR ''.'' # rest)"
    show "prefix ''Tool::'' (drop k a)"
    proof (rule ccontr)
      assume "\<not> prefix ''Tool::'' (drop k a)"
      from straddle [OF p this] obtain r where r: "r \<noteq> []" "''Tool::'' = drop k a @ r"
        "prefix r (CHR ''.'' # rest)" by blast
      from r(1,3) have "hd r = CHR ''.''" by (cases r) auto
      with tool_splits [OF r(2)] r(1) show False by auto
    qed
  qed
  then show ?thesis by (simp add: replace_from_Cons)
qed

section \<open>The rewrite and the occurrences of a moved name\<close>

lemma update_refs_passes:
  "update_refs content =
     passes moved_vars (replace_from ''Tool::'' ''CanvasPanel::Tool::'' content)"
  by (simp add: update_refs_def passes_def scope_replace)

lemma update_refs_occurrence:
  assumes "var \<in> set moved_vars" "clean_end pre" "clean_start post"
    and "\<not> (suffix ''Tool'' var \<and> prefix ''::'' post)"
  shows "update_refs (pre @ var @ post) =
         update_refs pre @ ''m_canvasPanel.'' @ var @ update_refs post"
proof -
  let ?R = "replace_from ''Tool::'' ''CanvasPanel::Tool::''"
  from assms(1) moved_vars_ident have iv: "ident var" by (auto simp: list_all_iff)
  then have vw: "list_all is_word var" "var \<noteq> []" by (simp_all add: ident_def)
  from ident_Cons [OF iv] have hv: "var @ post \<noteq> []" "is_word (hd (var @ post))" by auto
  have "?R (pre @ var @ post) = ?R pre @ ?R (var @ post)"
    by (rule scope_before_word [OF assms(2) hv])
  also have "?R (var @ post) = var @ ?R post"
    by (rule scope_word [OF vw(1) assms(3,4)])
  finally have r: "?R (pre @ var @ post) = ?R pre @ var @ ?R post" .
  have ce: "clean_end (?R pre)" using clean_end_scope [OF assms(2)] by (simp add: scope_replace)
  have cs: "clean_start (?R post)"
    using clean_start_scope [OF assms(3)] by (simp add: scope_replace)
  show ?thesis
    unfolding update_refs_passes r by (rule passes_occurrence [OF assms(1) ce cs])
qed

text \<open>
  Outside the case of a name ending in \<^verbatim>\<open>Tool\<close> directly followed by \<^verbatim>\<open>::\<close>, the
  rewrite copies a word that stands behind a dot.
\<close>

lemma update_refs_keeps_dotted:
  assumes "list_all is_word w" "clean_start post"
    and "\<not> (suffix ''Tool'' w \<and> prefix ''::'' post)"
  shows "update_refs (pre @ ''.'' @ w @ post) = update_refs pre @ ''.'' @ w @ update_refs post"
proof -
  let ?R = "replace_from ''Tool::'' ''CanvasPanel::Tool::''"
  have "?R (pre @ ''.'' @ w @ post) = ?R pre @ ''.'' @ ?R (w @ post)" by (rule scope_dot)
  also have "?R (w @ post) = w @ ?R post" by (rule scope_word [OF assms])
  finally have r: "?R (pre @ ''.'' @ w @ post) = ?R pre @ ''.'' @ w @ ?R post" .
  have cs: "clean_start (?R post)"
    using clean_start_scope [OF assms(2)] by (simp add: scope_replace)
  show ?thesis
    unfolding update_refs_passes r
    by (rule passes_dotted_run [OF assms(1) moved_vars_ident cs])
qed

section \<open>Which occurrences the rewrite qualifies\<close>

text \<open>
  Claim C7, as stated, fails: in \<open>other.currentTool\<close> the name is a whole word and is not
  preceded by the qualifier \<^verbatim>\<open>m_canvasPanel.\<close>, and the rewrite leaves it as it is.
\<close>

theorem other_qualifier_not_replaced:
  "\<not> suffix ''m_canvasPanel.'' ''other.'' \<and>
   sub_var ''m_canvasPanel'' ''currentTool'' ''other.currentTool'' = ''other.currentTool'' \<and>
   update_refs ''other.currentTool'' = ''other.currentTool''"
  by code_simp

text \<open>
  Claim C7, amended. For every name of the rename table of the script, the rewrite (the
  \<^verbatim>\<open>Tool::\<close> scope substitution followed by the substitutions of all names) replaces
  every occurrence in the text that is a whole word (no word character before or after
  it), is not immediately preceded by a \<^verbatim>\<open>.\<close> character, and is not a name ending in
  \<^verbatim>\<open>Tool\<close> that is directly followed by \<^verbatim>\<open>::\<close>, by \<^verbatim>\<open>m_canvasPanel.\<close> and the
  name; the text before and the text behind the occurrence are rewritten on their own.
  The same holds for the substitution of a single identifier with any qualifier; with the
  qualifier \<open>state\<close> and the symbol \<open>count\<close>, the line \<^verbatim>\<open>count = count + 1;\<close> becomes
  \<^verbatim>\<open>state.count = state.count + 1;\<close>, and rewriting that line again leaves it as it is.
\<close>

theorem update_refs_replaces:
  assumes "var \<in> set moved_vars"
    and "pre = [] \<or> (\<not> is_word (last pre) \<and> last pre \<noteq> CHR ''.'')"
    and "post = [] \<or> \<not> is_word (hd post)"
    and "\<not> (suffix ''Tool'' var \<and> prefix ''::'' post)"
  shows "update_refs (pre @ var @ post) =
           update_refs pre @ ''m_canvasPanel.'' @ var @ update_refs post \<and>
         (ident v \<longrightarrow>
            sub_var q v (pre @ v @ post) = sub_var q v pre @ q @ ''.'' @ v @ sub_var q v post) \<and>
         sub_var ''state'' ''count'' ''count = count + 1;'' = ''state.count = state.count + 1;'' \<and>
         sub_var ''state'' ''count'' ''state.count = state.count + 1;'' =
           ''state.count = state.count + 1;''"
proof -
  have "update_refs (pre @ var @ post) =
      update_refs pre @ ''m_canvasPanel.'' @ var @ update_refs post"
    using assms(2,3)
    by (intro update_refs_occurrence [OF assms(1) _ _ assms(4)])
      (simp_all add: clean_end_def clean_start_def)
  moreover have "ident v \<longrightarrow>
      sub_var q v (pre @ v @ post) = sub_var q v pre @ q @ ''.'' @ v @ sub_var q v post"
    using sub_var_occurrence [OF _ assms(2,3)] by blast
  moreover have "sub_var ''state'' ''count'' ''count = count + 1;'' =
      ''state.count = state.count + 1;''"
    by code_simp
  moreover have "sub_var ''state'' ''count'' ''state.count = state.count + 1;'' =
      ''state.count = state.count + 1;''"
    by code_simp
  ultimately show ?thesis by blast
qed

theorem update_refs_replaces_witness:
  "update_refs ''if (currentTool == x)'' = ''if (m_canvasPanel.currentTool == x)''"
proof -
  have m: "''currentTool'' \<in> set moved_vars" by (simp add: moved_vars_def)
  have p: "''if ('' = [] \<or> (\<not> is_word (last ''if ('') \<and> last ''if ('' \<noteq> CHR ''.'')"
    by (simp add: is_word_def)
  have s: "'' == x)'' = [] \<or> \<not> is_word (hd '' == x)'')" by (simp add: is_word_def)
  have t: "\<not> (suffix ''Tool'' ''currentTool'' \<and> prefix ''::'' '' == x)'')" by simp
  have a: "update_refs ''if ('' = ''if (''" by code_simp
  have b: "update_refs '' == x)'' = '' == x)''" by code_simp
  from update_refs_replaces [OF m p s t]
  have "update_refs (''if ('' @ ''currentTool'' @ '' == x)'') =
      update_refs ''if ('' @ ''m_canvasPanel.'' @ ''currentTool'' @ update_refs '' == x)''"
    by blast
  then show ?thesis by (simp add: a b)
qed

section \<open>An occurrence behind a dot\<close>

text \<open>
  Claim C9 at the input \<^verbatim>\<open>x.lastTool::A\<close>: the name \<open>lastTool\<close> stands behind a dot
  as a whole word, and the rewrite does not leave it unchanged. The substitution of the
  name skips it, as the claim says, but the scope substitution that runs first replaces
  \<^verbatim>\<open>Tool::\<close> wherever these characters occur, also inside the name.
\<close>

theorem update_refs_mangles_dotted:
  "sub_var ''m_canvasPanel'' ''lastTool'' ''x.lastTool::A'' = ''x.lastTool::A'' \<and>
   update_refs ''x.lastTool::A'' = ''x.lastCanvasPanel::Tool::A''"
  by code_simp

section \<open>The rewrite run twice\<close>

text \<open>
  Claim C2 at the input \<^verbatim>\<open>Tool::Paint\<close>: the first run qualifies the scope, and the
  second run qualifies it once more, since the replacement of \<^verbatim>\<open>Tool::\<close> has no guard
  against text that is qualified already.
\<close>

theorem update_refs_twice:
  "update_refs ''Tool::Paint'' = ''CanvasPanel::Tool::Paint'' \<and>
   update_refs (update_refs ''Tool::Paint'') = ''CanvasPanel::CanvasPanel::Tool::Paint''"
  by code_simp

end
